theory Spec2Isabelle
  imports Complex_Main
begin

section \<open>The rate limiter of \<^verbatim>\<open>src/utils/rateLimiter\<close> (class InfuraRateLimiter)\<close>

text \<open>
  The class is a single-threaded JavaScript object. Its asynchronous method
  \<^verbatim>\<open>processQueue\<close> runs from one \<^verbatim>\<open>await\<close> to the next without interruption, so
  the object is modelled as a state machine: a record of the fields, and one
  transition for every piece of code that the event loop runs in one go (a call of
  \<^verbatim>\<open>queueRequest\<close>, a timer callback, the resumption of \<^verbatim>\<open>processQueue\<close> after an
  \<^verbatim>\<open>await\<close>).
\<close>

subsection \<open>JavaScript values in the counters\<close>

text \<open>
  The counters start as numbers holding integers, and the cost table holds
  integers. A cost that is not a number turns a counter into a string, so a counter
  is one of: an integer; a function or object inherited from \<^verbatim>\<open>Object.prototype\<close>
  (a cost only); a string that does not read as a number (what \<^verbatim>\<open>+\<close> gives as soon
  as one operand is such a function, object or string: the text of a function or
  \<^verbatim>\<open>[object Object]\<close> is part of it); \<^verbatim>\<open>NaN\<close>.
\<close>

datatype js_value = Num int | Inherited | Text | NaN

text \<open>\<^verbatim>\<open>a + b\<close>: addition of numbers, concatenation otherwise.\<close>

fun js_plus :: "js_value \<Rightarrow> js_value \<Rightarrow> js_value" where
  "js_plus (Num x) (Num y) = Num (x + y)"
| "js_plus (Num x) NaN = NaN"
| "js_plus NaN (Num y) = NaN"
| "js_plus NaN NaN = NaN"
| "js_plus a b = Text"

text \<open>
  \<^verbatim>\<open>a > n\<close> for a number \<open>n\<close>: the other operand is converted to a number, which
  is \<^verbatim>\<open>NaN\<close> for everything here that is not one, and a comparison with \<^verbatim>\<open>NaN\<close> is
  false.
\<close>

fun js_gt :: "js_value \<Rightarrow> int \<Rightarrow> bool" where
  "js_gt (Num x) n = (n < x)"
| "js_gt v n = False"

text \<open>\<^verbatim>\<open>n - a\<close> for a number \<open>n\<close>.\<close>

fun js_minus :: "int \<Rightarrow> js_value \<Rightarrow> js_value" where
  "js_minus n (Num y) = Num (n - y)"
| "js_minus n v = NaN"

subsection \<open>Limits and the cost table\<close>

definition MAX_CREDITS_PER_SECOND :: int where
  "MAX_CREDITS_PER_SECOND = 500"

definition MAX_CREDITS_PER_DAY :: int where
  "MAX_CREDITS_PER_DAY = 3000000"

definition SAFE_CREDITS_PER_SECOND :: int where
  "SAFE_CREDITS_PER_SECOND = 400"

text \<open>The six own keys of the object \<^verbatim>\<open>CREDIT_COSTS\<close>.\<close>

definition CREDIT_COSTS :: "string \<rightharpoonup> int" where
  "CREDIT_COSTS = map_of
     [(''eth_sendRawTransaction'', 20),
      (''eth_call'', 15),
      (''eth_getTransactionReceipt'', 15),
      (''eth_getBalance'', 10),
      (''eth_getBlockByNumber'', 10),
      (''eth_gasPrice'', 5)]"

text \<open>
  \<^verbatim>\<open>CREDIT_COSTS\<close> is a plain object, so a key that is not its own is looked up
  in \<^verbatim>\<open>Object.prototype\<close>, whose properties are these (functions, and for
  \<^verbatim>\<open>__proto__\<close> the prototype object itself).
\<close>

definition Object_prototype :: "string list" where
  "Object_prototype =
     [''constructor'', ''__defineGetter__'', ''__defineSetter__'', ''hasOwnProperty'',
      ''__lookupGetter__'', ''__lookupSetter__'', ''isPrototypeOf'',
      ''propertyIsEnumerable'', ''toString'', ''valueOf'', ''__proto__'',
      ''toLocaleString'']"

text \<open>\<^verbatim>\<open>this.CREDIT_COSTS[method]\<close>; \<open>None\<close> is \<^verbatim>\<open>undefined\<close>.\<close>

definition CREDIT_COSTS_at :: "string \<Rightarrow> js_value option" where
  "CREDIT_COSTS_at m =
     (case CREDIT_COSTS m of
        Some c \<Rightarrow> Some (Num c)
      | None \<Rightarrow> if m \<in> set Object_prototype then Some Inherited else None)"

text \<open>
  \<^verbatim>\<open>this.CREDIT_COSTS[method] || 10\<close>: \<^verbatim>\<open>undefined\<close> and a zero entry give 10; an
  inherited function or object is truthy and is returned as it is.
\<close>

definition getCreditsForMethod :: "string \<Rightarrow> js_value" where
  "getCreditsForMethod m =
     (case CREDIT_COSTS_at m of
        None \<Rightarrow> Num 10
      | Some (Num c) \<Rightarrow> if c = 0 then Num 10 else Num c
      | Some NaN \<Rightarrow> Num 10
      | Some v \<Rightarrow> v)"

subsection \<open>Data\<close>

text \<open>
  What a rejected promise carries when it is neither \<^verbatim>\<open>null\<close> nor \<^verbatim>\<open>undefined\<close>: a
  value whose \<^verbatim>\<open>code\<close> property may be absent or not a number (\<open>None\<close>);
  \<^verbatim>\<open>error.code === 429\<close> is \<open>code e = Some 429\<close>.
\<close>

datatype js_error = Error (code: "int option") (message: string)

text \<open>
  How the promise returned by \<^verbatim>\<open>executeFn()\<close> settles: fulfilled with a value,
  rejected with such a value, or rejected with \<^verbatim>\<open>null\<close> or \<^verbatim>\<open>undefined\<close>
  (\<^verbatim>\<open>executeFn\<close> returns a \<^verbatim>\<open>Promise<any>\<close>, and \<^verbatim>\<open>Promise.reject()\<close> is such a
  rejection).
\<close>

datatype outcome = Fulfilled string | Failed js_error | FailedNullish

text \<open>
  A queue entry. \<open>executeFn\<close> is the caller's closure (an opaque handle; what a
  call of it yields is supplied by the environment when the promise settles), and
  \<open>promise\<close> stands for the pair \<^verbatim>\<open>resolve\<close>/\<^verbatim>\<open>reject\<close> of the promise that
  \<^verbatim>\<open>queueRequest\<close> created: promises are numbered in the order of their creation.
\<close>

record request =
  method_name :: string
  executeFn :: nat
  promise :: nat
  retries :: nat
  maxRetries :: nat

record stats_counters =
  totalRequests :: nat
  throttledRequests :: nat
  failedRequests :: nat
  dailyCreditsUsed :: js_value

text \<open>The object returned by \<^verbatim>\<open>getStats()\<close>.\<close>

record stats_report =
  r_totalRequests :: nat
  r_throttledRequests :: nat
  r_failedRequests :: nat
  r_dailyCreditsUsed :: js_value
  currentSecondCredits :: js_value
  currentDayCredits :: js_value
  remainingDailyCredits :: js_value
  queueLength :: nat

text \<open>The three events the class emits, with their payloads.\<close>

datatype emission =
    Throttled string "string option"
  | Retry string nat nat
  | Warning string stats_report

text \<open>
  Everything the object does to the outside, in the order it happens: events
  emitted, \<^verbatim>\<open>executeFn\<close> called (with the clock reading at the call), promises
  resolved and rejected, and the two counter resets of \<^verbatim>\<open>setupResetTimers\<close>.
\<close>

datatype effect =
    Emit emission
  | Execute nat request
  | Resolve request string
  | Reject request js_error
  | SecondReset
  | DayReset

text \<open>
  Where the one running call of \<^verbatim>\<open>processQueue\<close> is suspended:
  not running; at \<^verbatim>\<open>await this.delay(1000)\<close> of the throttling branch; at
  \<^verbatim>\<open>await request.executeFn()\<close>; at \<^verbatim>\<open>await this.delay(backoffMs)\<close> of the retry
  branch, holding the entry it has shifted off the queue; or nowhere any more,
  because an exception has left the method (\<open>Dead\<close>): \<^verbatim>\<open>processing\<close> is still
  true then, and nothing resumes the loop. The promise of \<^verbatim>\<open>processQueue\<close> that
  the exception rejects is awaited by nobody; the object is modelled on, as in a
  process that survives an unhandled rejection.
\<close>

datatype suspended =
    NotRunning
  | AwaitThrottle nat
  | AwaitExec request
  | AwaitBackoff request nat
  | Dead

record state =
  secondlyCredits :: js_value
  dailyCredits :: js_value
  lastResetSecond :: nat
  lastResetDay :: string
  queue :: "request list"
  processing :: bool
  stats :: stats_counters
  suspended_at :: suspended
  now :: nat
  promises :: nat
  effects :: "effect list"

text \<open>The constructor, run at clock reading \<open>t\<close> on the day \<open>d\<close>.\<close>

definition constructor :: "nat \<Rightarrow> string \<Rightarrow> state" where
  "constructor t d =
     \<lparr> secondlyCredits = Num 0,
       dailyCredits = Num 0,
       lastResetSecond = t,
       lastResetDay = d,
       queue = [],
       processing = False,
       stats = \<lparr> totalRequests = 0, throttledRequests = 0, failedRequests = 0,
                 dailyCreditsUsed = Num 0 \<rparr>,
       suspended_at = NotRunning,
       now = t,
       promises = 0,
       effects = [] \<rparr>"

subsection \<open>Admission and accounting\<close>

text \<open>The object \<^verbatim>\<open>{ allowed, reason? }\<close> returned by \<^verbatim>\<open>canProceed\<close>.\<close>

record admission =
  allowed :: bool
  reason :: "string option"

text \<open>
  \<^verbatim>\<open>canProceed\<close> is a method of the object, so it is given the state and returns
  the state it leaves behind beside its result.
\<close>

definition canProceed :: "state \<Rightarrow> string \<Rightarrow> admission \<times> state" where
  "canProceed s m =
     (let credits = getCreditsForMethod m in
      if js_gt (js_plus (dailyCredits s) credits) MAX_CREDITS_PER_DAY
      then (\<lparr> allowed = False, reason = Some ''Daily credit limit exceeded'' \<rparr>, s)
      else if js_gt (js_plus (secondlyCredits s) credits) SAFE_CREDITS_PER_SECOND
      then (\<lparr> allowed = False, reason = Some ''Per-second rate limit'' \<rparr>, s)
      else (\<lparr> allowed = True, reason = None \<rparr>, s))"

definition trackUsage :: "state \<Rightarrow> string \<Rightarrow> state" where
  "trackUsage s m =
     (let credits = getCreditsForMethod m in
      s \<lparr> secondlyCredits := js_plus (secondlyCredits s) credits,
          dailyCredits := js_plus (dailyCredits s) credits,
          stats := (stats s)
            \<lparr> dailyCreditsUsed := js_plus (dailyCreditsUsed (stats s)) credits,
              totalRequests := totalRequests (stats s) + 1 \<rparr> \<rparr>)"

subsection \<open>The drain loop\<close>

text \<open>
  The \<^verbatim>\<open>while\<close> loop of \<^verbatim>\<open>processQueue\<close>, from the test of its condition to the
  next \<^verbatim>\<open>await\<close> or to the end of the method. Every path through the loop body
  reaches an \<^verbatim>\<open>await\<close>, so this part never iterates by itself.
\<close>

definition processQueue_loop :: "state \<Rightarrow> state" where
  "processQueue_loop s =
     (case queue s of
        [] \<Rightarrow> s \<lparr> processing := False, suspended_at := NotRunning \<rparr>
      | req # rest \<Rightarrow>
          (let (cp, s0) = canProceed s (method_name req) in
           if \<not> allowed cp
           then s0 \<lparr> stats := (stats s0) \<lparr> throttledRequests := throttledRequests (stats s0) + 1 \<rparr>,
                     effects := effects s0 @ [Emit (Throttled (method_name req) (reason cp))],
                     suspended_at := AwaitThrottle 1000 \<rparr>
           else (let s1 = trackUsage (s0 \<lparr> queue := rest \<rparr>) (method_name req) in
                 s1 \<lparr> effects := effects s1 @ [Execute (now s1) req],
                      suspended_at := AwaitExec req \<rparr>)))"

definition processQueue :: "state \<Rightarrow> state" where
  "processQueue s =
     (if processing s \<or> queue s = [] then s
      else processQueue_loop (s \<lparr> processing := True \<rparr>))"

text \<open>
  \<^verbatim>\<open>processQueue\<close> resumed when the promise of \<^verbatim>\<open>executeFn()\<close> has settled: the rest
  of the \<^verbatim>\<open>try\<close> block or the \<^verbatim>\<open>catch\<close> block, and then the loop again. When the
  rejection is \<^verbatim>\<open>null\<close> or \<^verbatim>\<open>undefined\<close>, reading \<^verbatim>\<open>error.code\<close> in the \<^verbatim>\<open>catch\<close>
  block throws a TypeError, which leaves \<^verbatim>\<open>processQueue\<close>: neither branch of the
  \<^verbatim>\<open>if\<close> runs, \<^verbatim>\<open>processing\<close> is not reset and the entry, already shifted off the
  queue, is dropped.
\<close>

definition processQueue_settled :: "state \<Rightarrow> request \<Rightarrow> outcome \<Rightarrow> state" where
  "processQueue_settled s req out =
     (case out of
        Fulfilled result \<Rightarrow>
          processQueue_loop (s \<lparr> effects := effects s @ [Resolve req result] \<rparr>)
      | Failed err \<Rightarrow>
          if code err = Some 429 \<and> retries req < maxRetries req
          then (let req' = req \<lparr> retries := retries req + 1 \<rparr>;
                    backoffMs = 2 ^ retries req' * 1000 in
                s \<lparr> effects := effects s @
                       [Emit (Retry (method_name req') (retries req') backoffMs)],
                    suspended_at := AwaitBackoff req' backoffMs \<rparr>)
          else processQueue_loop
                 (s \<lparr> stats := (stats s) \<lparr> failedRequests := failedRequests (stats s) + 1 \<rparr>,
                      effects := effects s @ [Reject req err] \<rparr>)
      | FailedNullish \<Rightarrow> s \<lparr> suspended_at := Dead \<rparr>)"

text \<open>
  \<^verbatim>\<open>processQueue\<close> resumed when the timeout of \<^verbatim>\<open>this.delay(ms)\<close> has fired:
  \<^verbatim>\<open>continue\<close> after throttling, \<^verbatim>\<open>this.queue.unshift(request)\<close> after a backoff.
\<close>

definition processQueue_delayed :: "state \<Rightarrow> state" where
  "processQueue_delayed s =
     (case suspended_at s of
        AwaitThrottle ms \<Rightarrow> processQueue_loop s
      | AwaitBackoff req ms \<Rightarrow> processQueue_loop (s \<lparr> queue := req # queue s \<rparr>)
      | _ \<Rightarrow> s)"

definition queueRequest :: "state \<Rightarrow> string \<Rightarrow> nat \<Rightarrow> state" where
  "queueRequest s m f =
     processQueue
       (s \<lparr> queue := queue s @
               [\<lparr> method_name = m, executeFn = f, promise = promises s,
                  retries = 0, maxRetries = 3 \<rparr>],
            promises := promises s + 1 \<rparr>)"

subsection \<open>Timers and monitoring\<close>

text \<open>The two callbacks of \<^verbatim>\<open>setupResetTimers\<close>.\<close>

definition resetSecond :: "state \<Rightarrow> state" where
  "resetSecond s =
     processQueue
       (s \<lparr> secondlyCredits := Num 0, lastResetSecond := now s,
            effects := effects s @ [SecondReset] \<rparr>)"

definition resetDay :: "state \<Rightarrow> string \<Rightarrow> state" where
  "resetDay s currentDay =
     (if currentDay \<noteq> lastResetDay s
      then s \<lparr> dailyCredits := Num 0, lastResetDay := currentDay,
               stats := (stats s) \<lparr> dailyCreditsUsed := Num 0 \<rparr>,
               effects := effects s @ [DayReset] \<rparr>
      else s)"

definition getStats :: "state \<Rightarrow> stats_report" where
  "getStats s =
     \<lparr> r_totalRequests = totalRequests (stats s),
       r_throttledRequests = throttledRequests (stats s),
       r_failedRequests = failedRequests (stats s),
       r_dailyCreditsUsed = dailyCreditsUsed (stats s),
       currentSecondCredits = secondlyCredits s,
       currentDayCredits = dailyCredits s,
       remainingDailyCredits = js_minus MAX_CREDITS_PER_DAY (dailyCredits s),
       queueLength = length (queue s) \<rparr>"

text \<open>
  The callback that \<^verbatim>\<open>startMonitoring\<close> installs. \<^verbatim>\<open>MAX_CREDITS_PER_DAY * 0.8\<close> is
  computed in the rationals; the double product is exactly 2400000. A counter that
  is not a number compares as \<^verbatim>\<open>NaN\<close>.
\<close>

definition monitor :: "state \<Rightarrow> state" where
  "monitor s =
     (let st = getStats s in
      if (case currentDayCredits st of
            Num d \<Rightarrow> (of_int d :: rat) > of_int MAX_CREDITS_PER_DAY * (8 / 10)
          | _ \<Rightarrow> False)
      then s \<lparr> effects := effects s @ [Emit (Warning ''daily_limit'' st)] \<rparr>
      else s)"

subsection \<open>The event loop\<close>

text \<open>
  What the environment can make happen: a caller calls
  \<^verbatim>\<open>queueRequest(method, executeFn)\<close>; time passes; one of the interval timers
  fires (the daily one reads the date \<^verbatim>\<open>new Date().toDateString()\<close>); the promise
  that \<^verbatim>\<open>processQueue\<close> awaits settles; the timeout of the pending
  \<^verbatim>\<open>delay\<close> fires. An event that finds \<^verbatim>\<open>processQueue\<close> waiting for something
  else changes nothing. The monitoring callback exists only once \<^verbatim>\<open>startMonitoring\<close>
  has been called, so a run may hold no \<open>MonitorTimer\<close> at all. When the timers fire
  is left to the environment: \<open>TimePasses\<close> moves the clock that \<^verbatim>\<open>Date.now()\<close>
  reads, and nothing ties the timer events to it. Listeners of the emitted events
  are taken not to throw.
\<close>

datatype event =
    QueueRequest string nat
  | TimePasses nat
  | SecondTimer
  | DayTimer string
  | MonitorTimer
  | Settled outcome
  | DelayElapsed

fun step :: "state \<Rightarrow> event \<Rightarrow> state" where
  "step s (QueueRequest m f) = queueRequest s m f"
| "step s (TimePasses ms) = s \<lparr> now := now s + ms \<rparr>"
| "step s SecondTimer = resetSecond s"
| "step s (DayTimer currentDay) = resetDay s currentDay"
| "step s MonitorTimer = monitor s"
| "step s (Settled out) =
     (case suspended_at s of
        AwaitExec req \<Rightarrow> processQueue_settled s req out
      | _ \<Rightarrow> s)"
| "step s DelayElapsed = processQueue_delayed s"

definition run :: "state \<Rightarrow> event list \<Rightarrow> state" where
  "run s es = foldl step s es"

subsection \<open>Batch sizing\<close>

text \<open>
  \<^verbatim>\<open>calculateOptimalBatchSize\<close> on an integer cost. The arithmetic is done in the
  rationals: \<^verbatim>\<open>400 * 0.8\<close> is exactly 320 as a double, and for an integer divisor
  the rounded quotient has the same floor as the exact one. A zero divisor gives
  \<^verbatim>\<open>Infinity\<close> in JavaScript, and \<^verbatim>\<open>Math.min(Infinity, 50)\<close> is 50.
\<close>

definition calculateOptimalBatchSize :: "int \<Rightarrow> int" where
  "calculateOptimalBatchSize creditsPerOperation =
     (let availableCreditsPerSecond = (of_int SAFE_CREDITS_PER_SECOND :: rat) * (8 / 10) in
      if creditsPerOperation = 0 then 50
      else (let batchSize = \<lfloor>availableCreditsPerSecond / of_int creditsPerOperation\<rfloor> in
            min batchSize 50))"

record batch_config =
  batchSize :: int
  delayBetweenBatches :: nat
  maxConcurrentBatches :: nat

definition getOptimalBatchConfig :: batch_config where
  "getOptimalBatchConfig =
     \<lparr> batchSize = calculateOptimalBatchSize 20,
       delayBetweenBatches = 3000,
       maxConcurrentBatches = 1 \<rparr>"

text \<open>
  The batch size in the words of the specification:
  \<open>floor ((safePerSecond * headroomFactor) / costPerOperation)\<close>, capped at a ceiling.
\<close>

definition advise_batchSize :: "rat \<Rightarrow> rat \<Rightarrow> int \<Rightarrow> int \<Rightarrow> int" where
  "advise_batchSize safePerSecond headroomFactor cap costPerOperation =
     min \<lfloor>(safePerSecond * headroomFactor) / of_int costPerOperation\<rfloor> cap"

section \<open>What is observed of a run\<close>

text \<open>The promises resolved and rejected, in order.\<close>

fun is_settlement :: "effect \<Rightarrow> bool" where
  "is_settlement (Resolve r v) = True"
| "is_settlement (Reject r e) = True"
| "is_settlement _ = False"

definition settlements :: "effect list \<Rightarrow> effect list" where
  "settlements effs = filter is_settlement effs"

text \<open>
  The entries whose \<open>executeFn\<close> was called, in order, and how often the entry of
  a given promise was executed.
\<close>

fun executions :: "effect list \<Rightarrow> request list" where
  "executions [] = []"
| "executions (Execute t r # es) = r # executions es"
| "executions (e # es) = executions es"

definition attempts :: "nat \<Rightarrow> effect list \<Rightarrow> nat" where
  "attempts p effs = length (filter (\<lambda>r. promise r = p) (executions effs))"

text \<open>
  The entries that still wait to be executed or settled, in the order in which the
  loop will take them: the entry the loop holds, then the queue.
\<close>

definition pending :: "state \<Rightarrow> request list" where
  "pending s =
     (case suspended_at s of
        AwaitExec r \<Rightarrow> r # queue s
      | AwaitBackoff r ms \<Rightarrow> r # queue s
      | _ \<Rightarrow> queue s)"

text \<open>
  The credits of a method as a number (nothing for a cost that is not a number),
  and the credits of the executions after the latest occurrence of a mark (a reset)
  in the list of effects, or of all executions when there is none.
\<close>

definition credits_of :: "string \<Rightarrow> int" where
  "credits_of m = (case getCreditsForMethod m of Num c \<Rightarrow> c | _ \<Rightarrow> 0)"

fun cost_of :: "effect \<Rightarrow> int" where
  "cost_of (Execute t r) = credits_of (method_name r)"
| "cost_of e = 0"

fun cost_back_to :: "effect \<Rightarrow> effect list \<Rightarrow> int" where
  "cost_back_to mark [] = 0"
| "cost_back_to mark (e # es) = (if e = mark then 0 else cost_of e + cost_back_to mark es)"

definition costSince :: "effect \<Rightarrow> effect list \<Rightarrow> int" where
  "costSince mark effs = cost_back_to mark (rev effs)"

text \<open>
  The credits of the executions whose call of \<open>executeFn\<close> fell in the 1000 ms
  that start at \<open>t0\<close>.
\<close>

definition windowCost :: "nat \<Rightarrow> effect list \<Rightarrow> int" where
  "windowCost t0 effs =
     sum_list (map (\<lambda>e. case e of
                           Execute t r \<Rightarrow> if t0 \<le> t \<and> t < t0 + 1000
                                          then credits_of (method_name r) else 0
                         | _ \<Rightarrow> 0) effs)"

text \<open>The \<open>warning\<close> events among the effects.\<close>

fun is_warning :: "effect \<Rightarrow> bool" where
  "is_warning (Emit (Warning ty st)) = True"
| "is_warning e = False"

definition warnings :: "effect list \<Rightarrow> effect list" where
  "warnings effs = filter is_warning effs"

section \<open>Example runs\<close>

text \<open>\<open>n\<close> transactions of 20 credits, each fulfilled before the next is submitted.\<close>

definition transactions :: "nat \<Rightarrow> event list" where
  "transactions n =
     concat (replicate n
       [QueueRequest ''eth_sendRawTransaction'' 0, Settled (Fulfilled ''0x1'')])"

text \<open>A fresh limiter after twenty of them: the budget of the second is used up.\<close>

definition full_second :: state where
  "full_second = run (constructor 0 ''Mon Nov 02 2026'') (transactions 20)"

text \<open>An \<open>eth_call\<close> arrives then: the state in which the loop is entered.\<close>

definition eth_call_entry :: request where
  "eth_call_entry =
     \<lparr> method_name = ''eth_call'', executeFn = 1, promise = 20, retries = 0, maxRetries = 3 \<rparr>"

definition second_used_up :: state where
  "second_used_up = full_second \<lparr> queue := [eth_call_entry], processing := True \<rparr>"

text \<open>A fresh limiter that has just called \<open>executeFn\<close> of its first entry.\<close>

definition eth_call_first :: request where
  "eth_call_first =
     \<lparr> method_name = ''eth_call'', executeFn = 1, promise = 0, retries = 0, maxRetries = 3 \<rparr>"

definition first_attempt :: state where
  "first_attempt = run (constructor 0 ''Mon Nov 02 2026'') [QueueRequest ''eth_call'' 1]"

text \<open>
  Three submissions; the first execution of the first has just failed with a 429
  error, and the loop waits for the backoff.
\<close>

definition backing_off :: state where
  "backing_off =
     run (constructor 0 ''Mon Nov 02 2026'')
       [QueueRequest ''eth_sendRawTransaction'' 0, QueueRequest ''eth_call'' 1,
        QueueRequest ''eth_getBalance'' 2,
        Settled (Failed (Error (Some 429) ''Too Many Requests''))]"

text \<open>
  One submission whose first three executions fail with a 429 error: the events up
  to the fourth execution, the state in which that execution is awaited, and the
  state after the first failure.
\<close>

definition three_retries :: "event list" where
  "three_retries =
     [QueueRequest ''eth_call'' 1,
      Settled (Failed (Error (Some 429) ''first'')), DelayElapsed,
      Settled (Failed (Error (Some 429) ''second'')), DelayElapsed,
      Settled (Failed (Error (Some 429) ''third'')), DelayElapsed]"

definition fourth_attempt :: state where
  "fourth_attempt = run (constructor 0 ''Mon Nov 02 2026'') three_retries"

definition first_backoff :: state where
  "first_backoff = run (constructor 0 ''Mon Nov 02 2026'') (take 2 three_retries)"

text \<open>
  Eleven transactions 900 ms after the construction, the reset of the per-second
  counter at 1000 ms, and eleven more transactions at 1100 ms.
\<close>

definition straddling_the_reset :: "event list" where
  "straddling_the_reset =
     TimePasses 900 # transactions 11
     @ [TimePasses 100, SecondTimer, TimePasses 100]
     @ transactions 11"

text \<open>
  A second in which twenty transactions are executed, and 7500 such seconds with no
  monitoring callback in between.
\<close>

definition busy_second :: "event list" where
  "busy_second = transactions 20 @ [SecondTimer]"

definition exhausting_the_day :: "event list" where
  "exhausting_the_day = concat (replicate 7500 busy_second)"

text \<open>
  A call whose method name is \<^verbatim>\<open>toString\<close>, and then thirty transactions, all within
  one second: no reset of a counter in between.
\<close>

definition unpriced_second :: "event list" where
  "unpriced_second =
     QueueRequest ''toString'' 0 # Settled (Fulfilled ''0x1'') # transactions 30"

text \<open>
  What follows a first execution in the example below: its promise is rejected with
  \<^verbatim>\<open>undefined\<close>, another call is submitted, and a second later the per-second
  counter is reset.
\<close>

definition stalling :: "event list" where
  "stalling =
     [Settled FailedNullish, QueueRequest ''eth_getBalance'' 2, TimePasses 1000, SecondTimer]"

section \<open>Invariants\<close>

text \<open>No entry is waiting and the loop is not running.\<close>

definition quiet :: "state \<Rightarrow> bool" where
  "quiet s \<longleftrightarrow> \<not> processing s \<and> queue s = [] \<and> suspended_at s = NotRunning"

text \<open>A submission whose method name is not a property of \<^verbatim>\<open>Object.prototype\<close>.\<close>

fun well_priced :: "event \<Rightarrow> bool" where
  "well_priced (QueueRequest m f) = (m \<notin> set Object_prototype)"
| "well_priced e = True"

text \<open>
  Each counter is a number, namely the credits of the executions since its latest
  reset, within its limit; and the given entries have such method names.
\<close>

definition priced_at :: "request list \<Rightarrow> state \<Rightarrow> bool" where
  "priced_at pend s \<longleftrightarrow>
     secondlyCredits s = Num (costSince SecondReset (effects s)) \<and>
     dailyCredits s = Num (costSince DayReset (effects s)) \<and>
     0 \<le> costSince SecondReset (effects s) \<and>
     costSince SecondReset (effects s) \<le> SAFE_CREDITS_PER_SECOND \<and>
     0 \<le> costSince DayReset (effects s) \<and>
     costSince DayReset (effects s) \<le> MAX_CREDITS_PER_DAY \<and>
     (\<forall>r \<in> set pend. method_name r \<notin> set Object_prototype)"

definition priced :: "state \<Rightarrow> bool" where
  "priced s \<longleftrightarrow> priced_at (pending s) s"

text \<open>A counter or a cost that is not a number above \<open>k\<close>.\<close>

definition at_most :: "int \<Rightarrow> js_value \<Rightarrow> bool" where
  "at_most k v = (case v of Num x \<Rightarrow> x \<le> k | _ \<Rightarrow> True)"

text \<open>
  The waiting entries carry increasing promise numbers below the next number to be
  given, nothing executed so far is newer than a waiting entry, and executions
  have happened in the order of the promise numbers.
\<close>

definition order_inv0 :: "request list \<Rightarrow> effect list \<Rightarrow> nat \<Rightarrow> bool" where
  "order_inv0 pend effs n \<longleftrightarrow>
     sorted_wrt (<) (map promise pend) \<and>
     (\<forall>r \<in> set pend. promise r < n) \<and>
     (\<forall>x \<in> set (executions effs). promise x < n \<and> (\<forall>r \<in> set pend. promise x \<le> promise r)) \<and>
     sorted (map promise (executions effs))"

text \<open>
  A settled promise was executed once more than its entry had retries; a promise
  rejected with a 429 error had used up its three retries; and no settled promise
  is waiting.
\<close>

fun settled_entry_ok :: "request list \<Rightarrow> effect list \<Rightarrow> nat \<Rightarrow> effect \<Rightarrow> bool" where
  "settled_entry_ok pend effs n (Reject r err) =
     (attempts (promise r) effs = retries r + 1 \<and> retries r \<le> 3 \<and>
      (code err = Some 429 \<longrightarrow> retries r = 3) \<and>
      promise r < n \<and> (\<forall>x \<in> set pend. promise r < promise x))"
| "settled_entry_ok pend effs n (Resolve r v) =
     (attempts (promise r) effs = retries r + 1 \<and> retries r \<le> 3 \<and>
      promise r < n \<and> (\<forall>x \<in> set pend. promise r < promise x))"
| "settled_entry_ok pend effs n e = True"

text \<open>A queued entry has been executed as often as it has retries, at most three.\<close>

definition queue_ok :: "request list \<Rightarrow> effect list \<Rightarrow> bool" where
  "queue_ok q effs \<longleftrightarrow>
     (\<forall>r \<in> set q. attempts (promise r) effs = retries r \<and> retries r \<le> 3 \<and> maxRetries r = 3)"

definition history_ok :: "request list \<Rightarrow> effect list \<Rightarrow> nat \<Rightarrow> bool" where
  "history_ok pend effs n \<longleftrightarrow>
     order_inv0 pend effs n \<and> (\<forall>e \<in> set effs. settled_entry_ok pend effs n e)"

text \<open>The invariant of the whole state, by the place where the loop is suspended.\<close>

definition lifecycle_inv :: "state \<Rightarrow> bool" where
  "lifecycle_inv s \<longleftrightarrow>
     history_ok (pending s) (effects s) (promises s) \<and> queue_ok (queue s) (effects s) \<and>
     (case suspended_at s of
        NotRunning \<Rightarrow> \<not> processing s \<and> queue s = []
      | AwaitThrottle ms \<Rightarrow> processing s
      | AwaitExec r \<Rightarrow> processing s \<and> attempts (promise r) (effects s) = retries r + 1 \<and>
          retries r \<le> 3 \<and> maxRetries r = 3
      | AwaitBackoff r ms \<Rightarrow> processing s \<and> attempts (promise r) (effects s) = retries r \<and>
          1 \<le> retries r \<and> retries r \<le> 3 \<and> maxRetries r = 3 \<and> ms = 2 ^ retries r * 1000
      | Dead \<Rightarrow> processing s)"

text \<open>What holds whenever the loop is entered or resumed at its head.\<close>

definition loop_ready :: "state \<Rightarrow> bool" where
  "loop_ready s \<longleftrightarrow> processing s \<and> history_ok (queue s) (effects s) (promises s) \<and> queue_ok (queue s) (effects s)"

section \<open>Basic facts\<close>

lemma getCreditsForMethod_cases:
  "getCreditsForMethod m \<in> {Num 5, Num 10, Num 15, Num 20, Inherited}"
  by (simp add: getCreditsForMethod_def CREDIT_COSTS_at_def CREDIT_COSTS_def)

lemma own_cost:
  assumes "m \<notin> set Object_prototype"
  shows "\<exists>c. getCreditsForMethod m = Num c \<and> 5 \<le> c \<and> c \<le> 20"
  using assms by (simp add: getCreditsForMethod_def CREDIT_COSTS_at_def CREDIT_COSTS_def)

lemma any_cost:
  "getCreditsForMethod m = Inherited
   \<or> (\<exists>c. getCreditsForMethod m = Num c \<and> 5 \<le> c \<and> c \<le> 20)"
  using getCreditsForMethod_cases [of m] by auto

lemma at_most_Num [simp]: "at_most k (Num x) = (x \<le> k)"
  by (simp add: at_most_def)

lemma at_most_plus:
  assumes "at_most (k - 20) v"
  shows "at_most k (js_plus v (getCreditsForMethod m)) = True"
proof (cases v)
  case (Num x)
  then show ?thesis using assms any_cost [of m] by (auto simp: at_most_def)
qed (use any_cost [of m] in \<open>auto simp: at_most_def\<close>)

lemma canProceed_at_most:
  assumes "at_most 380 (secondlyCredits s)" and "at_most 2999980 (dailyCredits s)"
  shows "canProceed s m = (\<lparr> allowed = True, reason = None \<rparr>, s)"
proof -
  have "\<not> js_gt (js_plus (dailyCredits s) (getCreditsForMethod m)) 3000000"
    using assms(2) any_cost [of m] by (cases "dailyCredits s") (auto simp: at_most_def)
  moreover have "\<not> js_gt (js_plus (secondlyCredits s) (getCreditsForMethod m)) 400"
    using assms(1) any_cost [of m] by (cases "secondlyCredits s") (auto simp: at_most_def)
  ultimately show ?thesis
    by (simp add: canProceed_def Let_def MAX_CREDITS_PER_DAY_def SAFE_CREDITS_PER_SECOND_def)
qed

lemma cost_eth_call: "getCreditsForMethod ''eth_call'' = Num 15"
  by (simp add: getCreditsForMethod_def CREDIT_COSTS_at_def CREDIT_COSTS_def)

lemma cost_eth_sendRawTransaction: "getCreditsForMethod ''eth_sendRawTransaction'' = Num 20"
  by (simp add: getCreditsForMethod_def CREDIT_COSTS_at_def CREDIT_COSTS_def)

lemma cost_toString: "getCreditsForMethod ''toString'' = Inherited"
  by (simp add: getCreditsForMethod_def CREDIT_COSTS_at_def CREDIT_COSTS_def
        Object_prototype_def)

lemma credits_of_eth_sendRawTransaction: "credits_of ''eth_sendRawTransaction'' = 20"
  by (simp add: credits_of_def cost_eth_sendRawTransaction)

lemma run_append: "run s (a @ b) = run (run s a) b"
  by (simp add: run_def)

lemma run_Cons: "run s (e # es) = run (step s e) es"
  by (simp add: run_def)

lemma run_Nil: "run s [] = s"
  by (simp add: run_def)

text \<open>The definitions that a concrete run unfolds.\<close>

lemmas evaluate =
  run_def queueRequest_def processQueue_def processQueue_loop_def canProceed_def
  trackUsage_def processQueue_settled_def processQueue_delayed_def resetSecond_def
  constructor_def Let_def SAFE_CREDITS_PER_SECOND_def MAX_CREDITS_PER_DAY_def
  getCreditsForMethod_def CREDIT_COSTS_at_def CREDIT_COSTS_def

subsection \<open>Batch sizing in integers\<close>

lemma available_is_320:
  "(of_int SAFE_CREDITS_PER_SECOND :: rat) * (8 / 10) = of_int 320"
  by (simp add: SAFE_CREDITS_PER_SECOND_def)

lemma calculateOptimalBatchSize_div:
  "c \<noteq> 0 \<Longrightarrow> calculateOptimalBatchSize c = min (320 div c) 50"
  unfolding calculateOptimalBatchSize_def Let_def available_is_320
  by (simp only: floor_divide_of_int_eq if_False)

subsection \<open>What the loop does in one piece\<close>

lemma settlements_append [simp]: "settlements (a @ b) = settlements a @ settlements b"
  by (simp add: settlements_def)

lemma trackUsage_fields [simp]:
  "queue (trackUsage s m) = queue s"
  "processing (trackUsage s m) = processing s"
  "suspended_at (trackUsage s m) = suspended_at s"
  "effects (trackUsage s m) = effects s"
  "promises (trackUsage s m) = promises s"
  "now (trackUsage s m) = now s"
  "failedRequests (stats (trackUsage s m)) = failedRequests (stats s)"
  "throttledRequests (stats (trackUsage s m)) = throttledRequests (stats s)"
  by (simp_all add: trackUsage_def Let_def)

lemma canProceed_snd [simp]: "snd (canProceed s m) = s"
  by (simp add: canProceed_def Let_def)

lemma processQueue_loop_cases [case_names drained denied admitted]:
  assumes "queue s = [] \<Longrightarrow>
             processQueue_loop s = s \<lparr> processing := False, suspended_at := NotRunning \<rparr> \<Longrightarrow> P"
    and "\<And>req rest. queue s = req # rest \<Longrightarrow>
             \<not> allowed (fst (canProceed s (method_name req))) \<Longrightarrow>
             processQueue_loop s =
               s \<lparr> stats := (stats s) \<lparr> throttledRequests := throttledRequests (stats s) + 1 \<rparr>,
                   effects := effects s @
                     [Emit (Throttled (method_name req)
                        (reason (fst (canProceed s (method_name req)))))],
                   suspended_at := AwaitThrottle 1000 \<rparr> \<Longrightarrow> P"
    and "\<And>req rest. queue s = req # rest \<Longrightarrow>
             allowed (fst (canProceed s (method_name req))) \<Longrightarrow>
             processQueue_loop s =
               (trackUsage (s \<lparr> queue := rest \<rparr>) (method_name req))
                 \<lparr> effects := effects s @ [Execute (now s) req],
                   suspended_at := AwaitExec req \<rparr> \<Longrightarrow> P"
  shows P
proof (cases "queue s")
  case Nil
  then show ?thesis using assms(1) by (simp add: processQueue_loop_def)
next
  case (Cons req rest)
  show ?thesis
  proof (cases "allowed (fst (canProceed s (method_name req)))")
    case True
    then show ?thesis using Cons assms(3) [of req rest]
      by (simp add: processQueue_loop_def split_beta Let_def)
  next
    case False
    then show ?thesis using Cons assms(2) [of req rest]
      by (simp add: processQueue_loop_def split_beta Let_def)
  qed
qed

lemma loop_failedRequests [simp]:
  "failedRequests (stats (processQueue_loop s)) = failedRequests (stats s)"
  by (cases s rule: processQueue_loop_cases) simp_all

lemma loop_effects:
  "effects (processQueue_loop s) = effects s
   \<or> (\<exists>m rsn. effects (processQueue_loop s) = effects s @ [Emit (Throttled m rsn)])
   \<or> (\<exists>t r. effects (processQueue_loop s) = effects s @ [Execute t r])"
  by (cases s rule: processQueue_loop_cases) simp_all

lemma loop_not_backoff: "suspended_at (processQueue_loop s) \<noteq> AwaitBackoff r ms"
  by (cases s rule: processQueue_loop_cases) simp_all

lemma loop_queue: "queue (processQueue_loop s) = queue s \<or> queue (processQueue_loop s) = tl (queue s)"
  by (cases s rule: processQueue_loop_cases) simp_all

lemma processQueue_busy: "processing s \<Longrightarrow> processQueue s = s"
  by (simp add: processQueue_def)

lemma waiting_step:
  assumes "processing s" and "suspended_at s = AwaitThrottle ms" and "e \<noteq> DelayElapsed"
  shows "processing (step s e) \<and> suspended_at (step s e) = AwaitThrottle ms
         \<and> (\<exists>new. queue (step s e) = queue s @ new)
         \<and> settlements (effects (step s e)) = settlements (effects s)
         \<and> failedRequests (stats (step s e)) = failedRequests (stats s)"
  using assms
  by (cases e)
     (simp_all add: queueRequest_def resetSecond_def resetDay_def monitor_def Let_def
        processQueue_busy settlements_def)

lemma waiting_run:
  assumes "processing s" and "suspended_at s = AwaitThrottle ms" and "DelayElapsed \<notin> set es"
  shows "processing (run s es) \<and> suspended_at (run s es) = AwaitThrottle ms
         \<and> (\<exists>new. queue (run s es) = queue s @ new)
         \<and> settlements (effects (run s es)) = settlements (effects s)
         \<and> failedRequests (stats (run s es)) = failedRequests (stats s)"
  using assms
proof (induction es arbitrary: s)
  case Nil
  then show ?case by (simp add: run_def)
next
  case (Cons e es)
  have ne: "e \<noteq> DelayElapsed" and rest: "DelayElapsed \<notin> set es" using Cons.prems(3) by auto
  note st = waiting_step [OF Cons.prems(1) Cons.prems(2) ne]
  from st obtain new where new: "queue (step s e) = queue s @ new" by blast
  have ih: "processing (run (step s e) es) \<and> suspended_at (run (step s e) es) = AwaitThrottle ms
         \<and> (\<exists>new. queue (run (step s e) es) = queue (step s e) @ new)
         \<and> settlements (effects (run (step s e) es)) = settlements (effects (step s e))
         \<and> failedRequests (stats (run (step s e) es)) = failedRequests (stats (step s e))"
    using Cons.IH [of "step s e"] st rest by blast
  then obtain new' where new': "queue (run (step s e) es) = queue (step s e) @ new'" by blast
  have r: "run s (e # es) = run (step s e) es" by (simp add: run_def)
  have "queue (run s (e # es)) = queue s @ (new @ new')" using new new' r by simp
  then have "\<exists>n. queue (run s (e # es)) = queue s @ n" by blast
  then show ?case using ih st r by simp
qed

lemma requeue_at_front:
  "suspended_at s = AwaitBackoff r ms \<Longrightarrow>
     step s DelayElapsed = processQueue_loop (s \<lparr> queue := r # queue s \<rparr>)"
  by (simp add: processQueue_delayed_def)

subsection \<open>The counters account for the executions\<close>

lemma costSince_snoc [simp]:
  "costSince mark (effs @ [e]) = (if e = mark then 0 else cost_of e + costSince mark effs)"
  by (simp add: costSince_def)

subsection \<open>Counters of well priced runs\<close>

lemma priced_queue: "priced s \<Longrightarrow> priced_at (queue s) s"
  by (cases "suspended_at s") (simp_all add: priced_def priced_at_def pending_def)

lemma priced_loop:
  assumes "priced_at (queue s) s"
  shows "priced (processQueue_loop s)"
proof (cases s rule: processQueue_loop_cases)
  case drained
  then show ?thesis using assms by (simp add: priced_def priced_at_def pending_def)
next
  case (denied req rest)
  then show ?thesis using assms by (simp add: priced_def priced_at_def pending_def)
next
  case (admitted req rest)
  have "method_name req \<notin> set Object_prototype"
    using assms admitted(1) by (simp add: priced_at_def)
  then obtain c where c: "getCreditsForMethod (method_name req) = Num c" "5 \<le> c" "c \<le> 20"
    using own_cost by blast
  have fit: "costSince DayReset (effects s) + c \<le> MAX_CREDITS_PER_DAY"
    "costSince SecondReset (effects s) + c \<le> SAFE_CREDITS_PER_SECOND"
    using admitted(2) assms c(1)
    by (auto simp: canProceed_def Let_def priced_at_def split: if_splits)
  show ?thesis
    unfolding admitted(3) using assms admitted(1) c fit
    by (simp add: priced_def priced_at_def pending_def trackUsage_def Let_def credits_of_def)
qed

lemma priced_processQueue:
  assumes "priced s"
  shows "priced (processQueue s)"
proof (cases "processing s \<or> queue s = []")
  case True
  then show ?thesis using assms by (simp add: processQueue_def)
next
  case False
  have "priced_at (queue s) (s \<lparr> processing := True \<rparr>)"
    using priced_queue [OF assms] by (simp add: priced_at_def)
  then have "priced (processQueue_loop (s \<lparr> processing := True \<rparr>))"
    using priced_loop [of "s \<lparr> processing := True \<rparr>"] by simp
  then show ?thesis using False by (simp add: processQueue_def)
qed

lemma priced_step:
  assumes "priced s" and "well_priced e"
  shows "priced (step s e)"
proof (cases e)
  case (QueueRequest m f)
  have "priced (s \<lparr> queue := queue s @
               [\<lparr> method_name = m, executeFn = f, promise = promises s,
                  retries = 0, maxRetries = 3 \<rparr>],
            promises := promises s + 1 \<rparr>)"
    using assms QueueRequest
    by (cases "suspended_at s") (simp_all add: priced_def priced_at_def pending_def)
  then show ?thesis using QueueRequest by (simp add: queueRequest_def priced_processQueue)
next
  case (TimePasses ms)
  then show ?thesis using assms
    by (cases "suspended_at s") (simp_all add: priced_def priced_at_def pending_def)
next
  case SecondTimer
  have "priced (s \<lparr> secondlyCredits := Num 0, lastResetSecond := now s,
            effects := effects s @ [SecondReset] \<rparr>)"
    using assms
    by (cases "suspended_at s")
       (simp_all add: priced_def priced_at_def pending_def SAFE_CREDITS_PER_SECOND_def)
  then show ?thesis using SecondTimer by (simp add: resetSecond_def priced_processQueue)
next
  case (DayTimer d)
  then show ?thesis using assms
    by (cases "suspended_at s")
       (simp_all add: priced_def priced_at_def pending_def resetDay_def MAX_CREDITS_PER_DAY_def)
next
  case MonitorTimer
  then show ?thesis using assms
    by (cases "suspended_at s")
       (simp_all add: priced_def priced_at_def pending_def monitor_def Let_def)
next
  case (Settled out)
  show ?thesis
  proof (cases "suspended_at s")
    case (AwaitExec req)
    have pa: "priced_at (req # queue s) s" using assms(1) AwaitExec
      by (simp add: priced_def pending_def)
    have a: "\<And>v. priced_at (queue s) (s \<lparr> effects := effects s @ [Resolve req v] \<rparr>)"
      using pa by (simp add: priced_at_def)
    have b: "\<And>y err. priced_at (queue s)
                (s \<lparr> stats := y, effects := effects s @ [Reject req err] \<rparr>)"
      using pa by (simp add: priced_at_def)
    show ?thesis
    proof (cases out)
      case (Fulfilled v)
      then show ?thesis using Settled AwaitExec a [of v]
          priced_loop [of "s \<lparr> effects := effects s @ [Resolve req v] \<rparr>"]
        by (simp add: processQueue_settled_def)
    next
      case (Failed err)
      show ?thesis
      proof (cases "code err = Some 429 \<and> retries req < maxRetries req")
        case True
        then show ?thesis using Settled AwaitExec Failed pa
          by (simp add: processQueue_settled_def Let_def priced_def priced_at_def pending_def)
      next
        case False
        have "processQueue_settled s req out = processQueue_loop
                (s \<lparr> stats := (stats s) \<lparr> failedRequests := failedRequests (stats s) + 1 \<rparr>,
                      effects := effects s @ [Reject req err] \<rparr>)"
          using Failed False by (auto simp: processQueue_settled_def)
        then show ?thesis using Settled AwaitExec
            b [where y = "(stats s) \<lparr> failedRequests := failedRequests (stats s) + 1 \<rparr>"
                 and err = err]
            priced_loop [of "s \<lparr> stats := (stats s)
                \<lparr> failedRequests := failedRequests (stats s) + 1 \<rparr>,
                      effects := effects s @ [Reject req err] \<rparr>"]
          by simp
      qed
    next
      case FailedNullish
      then show ?thesis using Settled AwaitExec pa
        by (simp add: processQueue_settled_def priced_def priced_at_def pending_def)
    qed
  qed (use Settled assms in simp_all)
next
  case DelayElapsed
  show ?thesis
  proof (cases "suspended_at s")
    case (AwaitThrottle ms)
    then have "priced_at (queue s) s" using assms(1) by (simp add: priced_def pending_def)
    then show ?thesis using DelayElapsed AwaitThrottle
      by (simp add: processQueue_delayed_def priced_loop)
  next
    case (AwaitBackoff r ms)
    then have "priced_at (queue (s \<lparr> queue := r # queue s \<rparr>)) (s \<lparr> queue := r # queue s \<rparr>)"
      using assms(1) by (simp add: priced_def pending_def priced_at_def)
    then show ?thesis using DelayElapsed AwaitBackoff
      by (simp add: processQueue_delayed_def priced_loop)
  qed (use DelayElapsed assms in \<open>simp_all add: processQueue_delayed_def\<close>)
qed

lemma priced_run:
  "priced s \<Longrightarrow> \<forall>e \<in> set es. well_priced e \<Longrightarrow> priced (run s es)"
  unfolding run_def by (induction es arbitrary: s) (simp_all add: priced_step)

lemma priced_constructor: "priced (constructor t d)"
  by (simp add: priced_def priced_at_def pending_def constructor_def costSince_def
        SAFE_CREDITS_PER_SECOND_def MAX_CREDITS_PER_DAY_def)

subsection \<open>Order of execution and number of attempts\<close>

lemma executions_append [simp]: "executions (a @ b) = executions a @ executions b"
  by (induction a rule: executions.induct) simp_all

lemma attempts_snoc_Execute [simp]:
  "attempts p (effs @ [Execute t r]) = (if promise r = p then Suc (attempts p effs) else attempts p effs)"
  by (simp add: attempts_def)

lemma attempts_snoc_other [simp]:
  "attempts p (effs @ [Emit x]) = attempts p effs"
  "attempts p (effs @ [Resolve r v]) = attempts p effs"
  "attempts p (effs @ [Reject r e]) = attempts p effs"
  "attempts p (effs @ [SecondReset]) = attempts p effs"
  "attempts p (effs @ [DayReset]) = attempts p effs"
  by (simp_all add: attempts_def)

lemma settled_ok_other:
  assumes "\<forall>e \<in> set effs. settled_entry_ok pend effs n e"
    and "\<And>p. attempts p (effs @ [e']) = attempts p effs"
    and "settled_entry_ok pend (effs @ [e']) n e'"
  shows "\<forall>e \<in> set (effs @ [e']). settled_entry_ok pend (effs @ [e']) n e"
proof
  fix e assume "e \<in> set (effs @ [e'])"
  then consider "e \<in> set effs" | "e = e'" by auto
  then show "settled_entry_ok pend (effs @ [e']) n e"
  proof cases
    case 1
    then have "settled_entry_ok pend effs n e" using assms(1) by blast
    then show ?thesis using assms(2) by (cases e) simp_all
  next
    case 2
    then show ?thesis using assms(3) by simp
  qed
qed

lemma history_ok_Emit: "history_ok pend effs n \<Longrightarrow> history_ok pend (effs @ [Emit x]) n"
  unfolding history_ok_def using settled_ok_other [of effs pend n "Emit x"]
  by (simp add: order_inv0_def)

lemma history_ok_SecondReset: "history_ok pend effs n \<Longrightarrow> history_ok pend (effs @ [SecondReset]) n"
  unfolding history_ok_def using settled_ok_other [of effs pend n "SecondReset"]
  by (simp add: order_inv0_def)

lemma history_ok_DayReset: "history_ok pend effs n \<Longrightarrow> history_ok pend (effs @ [DayReset]) n"
  unfolding history_ok_def using settled_ok_other [of effs pend n "DayReset"]
  by (simp add: order_inv0_def)

lemma settled_entry_ok_pend:
  assumes "settled_entry_ok pend effs n e"
    and "\<And>p. p < n \<Longrightarrow> (\<forall>x \<in> set pend. p < promise x) \<Longrightarrow> (\<forall>x \<in> set pend'. p < promise x)"
    and "n \<le> n'"
  shows "settled_entry_ok pend' effs n' e"
  using assms by (cases e) auto

lemma settled_all_pend:
  assumes "\<forall>e \<in> set effs. settled_entry_ok pend effs n e"
    and "\<And>p. p < n \<Longrightarrow> (\<forall>x \<in> set pend. p < promise x) \<Longrightarrow> (\<forall>x \<in> set pend'. p < promise x)"
    and "n \<le> n'"
  shows "\<forall>e \<in> set effs. settled_entry_ok pend' effs n' e"
proof
  fix e assume "e \<in> set effs"
  then have "settled_entry_ok pend effs n e" using assms(1) by blast
  then show "settled_entry_ok pend' effs n' e"
    by (rule settled_entry_ok_pend) (use assms(2,3) in blast)+
qed

lemma history_ok_tail: "history_ok (r # q) effs n \<Longrightarrow> history_ok q effs n"
proof -
  assume b: "history_ok (r # q) effs n"
  then have "\<forall>e \<in> set effs. settled_entry_ok q effs n e"
    unfolding history_ok_def by (elim conjE settled_all_pend) auto
  moreover have "order_inv0 q effs n"
    using b unfolding history_ok_def order_inv0_def by auto
  ultimately show ?thesis by (simp add: history_ok_def)
qed

lemma history_ok_same_promise:
  assumes "history_ok (r # q) effs n" and "promise r' = promise r"
  shows "history_ok (r' # q) effs n"
proof -
  have "\<forall>e \<in> set effs. settled_entry_ok (r' # q) effs n e"
    using assms unfolding history_ok_def by (elim conjE settled_all_pend) auto
  moreover have "order_inv0 (r' # q) effs n"
    using assms unfolding history_ok_def order_inv0_def by auto
  ultimately show ?thesis by (simp add: history_ok_def)
qed

lemma history_ok_submit:
  assumes "history_ok pend effs n" and "promise new = n"
  shows "history_ok (pend @ [new]) effs (Suc n)"
proof -
  have "\<forall>e \<in> set effs. settled_entry_ok (pend @ [new]) effs (Suc n) e"
    using assms unfolding history_ok_def by (elim conjE settled_all_pend) auto
  moreover have "order_inv0 (pend @ [new]) effs (Suc n)"
    using assms unfolding history_ok_def order_inv0_def
    by (auto simp: sorted_wrt_append less_Suc_eq le_eq_less_or_eq)
  ultimately show ?thesis by (simp add: history_ok_def)
qed

lemma history_ok_Execute:
  assumes "history_ok (r # q) effs n"
  shows "history_ok (r # q) (effs @ [Execute t r]) n"
proof -
  have ord: "order_inv0 (r # q) effs n" and st: "\<forall>e \<in> set effs. settled_entry_ok (r # q) effs n e"
    using assms by (simp_all add: history_ok_def)
  have "order_inv0 (r # q) (effs @ [Execute t r]) n"
    using ord unfolding order_inv0_def
    by (auto simp: sorted_append less_imp_le)
  moreover have "\<forall>e \<in> set (effs @ [Execute t r]). settled_entry_ok (r # q) (effs @ [Execute t r]) n e"
  proof
    fix e assume "e \<in> set (effs @ [Execute t r])"
    then consider "e \<in> set effs" | "e = Execute t r" by auto
    then show "settled_entry_ok (r # q) (effs @ [Execute t r]) n e"
    proof cases
      case 1
      then have "settled_entry_ok (r # q) effs n e" using st by blast
      then show ?thesis by (cases e) auto
    next
      case 2
      then show ?thesis by simp
    qed
  qed
  ultimately show ?thesis by (simp add: history_ok_def)
qed

lemma history_ok_Resolve:
  assumes "history_ok (r # q) effs n" and "attempts (promise r) effs = retries r + 1" and "retries r \<le> 3"
  shows "history_ok q (effs @ [Resolve r v]) n"
proof -
  have b: "history_ok q effs n" using assms(1) by (rule history_ok_tail)
  have "settled_entry_ok q (effs @ [Resolve r v]) n (Resolve r v)"
    using assms unfolding history_ok_def order_inv0_def by auto
  then show ?thesis
    using b settled_ok_other [of effs q n "Resolve r v"] unfolding history_ok_def
    by (simp add: order_inv0_def)
qed

lemma history_ok_Reject:
  assumes "history_ok (r # q) effs n" and "attempts (promise r) effs = retries r + 1" and "retries r \<le> 3"
    and "code err = Some 429 \<longrightarrow> retries r = 3"
  shows "history_ok q (effs @ [Reject r err]) n"
proof -
  have b: "history_ok q effs n" using assms(1) by (rule history_ok_tail)
  have "settled_entry_ok q (effs @ [Reject r err]) n (Reject r err)"
    using assms unfolding history_ok_def order_inv0_def by auto
  then show ?thesis
    using b settled_ok_other [of effs q n "Reject r err"] unfolding history_ok_def
    by (simp add: order_inv0_def)
qed

lemma queue_ok_other [simp]:
  "queue_ok q (effs @ [Emit x]) = queue_ok q effs"
  "queue_ok q (effs @ [Resolve r v]) = queue_ok q effs"
  "queue_ok q (effs @ [Reject r e]) = queue_ok q effs"
  "queue_ok q (effs @ [SecondReset]) = queue_ok q effs"
  "queue_ok q (effs @ [DayReset]) = queue_ok q effs"
  by (simp_all add: queue_ok_def)

lemma attempts_fresh:
  assumes "history_ok pend effs n"
  shows "attempts n effs = 0"
proof -
  have "\<forall>x \<in> set (executions effs). promise x \<noteq> n"
    using assms unfolding history_ok_def order_inv0_def by auto
  then show ?thesis by (simp add: attempts_def)
qed

lemma loop_ready_inv:
  assumes "loop_ready s"
  shows "lifecycle_inv (processQueue_loop s)"
proof (cases s rule: processQueue_loop_cases)
  case drained
  then show ?thesis using assms by (simp add: lifecycle_inv_def loop_ready_def pending_def)
next
  case (denied req rest)
  then show ?thesis using assms
    by (simp add: lifecycle_inv_def loop_ready_def pending_def history_ok_Emit)
next
  case (admitted req rest)
  have b: "history_ok (req # rest) (effects s) (promises s)"
    and q: "queue_ok (req # rest) (effects s)" and p: "processing s"
    using assms admitted(1) by (simp_all add: loop_ready_def)
  have b': "history_ok (req # rest) (effects s @ [Execute (now s) req]) (promises s)"
    using b by (rule history_ok_Execute)
  have "\<forall>r \<in> set rest. promise r \<noteq> promise req"
    using b unfolding history_ok_def order_inv0_def by auto
  then have q': "queue_ok rest (effects s @ [Execute (now s) req])"
    using q by (auto simp: queue_ok_def)
  have a: "attempts (promise req) (effects s @ [Execute (now s) req]) = retries req + 1"
    "retries req \<le> 3" "maxRetries req = 3"
    using q by (simp_all add: queue_ok_def)
  show ?thesis
    unfolding admitted(3) using b' q' a p
    by (simp add: lifecycle_inv_def pending_def)
qed

lemma lifecycle_processing: "lifecycle_inv s \<Longrightarrow> \<not> processing s \<Longrightarrow> suspended_at s = NotRunning \<and> queue s = []"
  by (cases "suspended_at s") (simp_all add: lifecycle_inv_def)

lemma lifecycle_effect_other:
  assumes "lifecycle_inv s"
    and "\<And>pend. history_ok pend (effects s) (promises s) \<Longrightarrow> history_ok pend (effects s @ [e]) (promises s)"
    and "\<And>p. attempts p (effects s @ [e]) = attempts p (effects s)"
  shows "lifecycle_inv (s \<lparr> effects := effects s @ [e] \<rparr>)"
proof -
  have "history_ok (pending s) (effects s) (promises s)" using assms(1) by (simp add: lifecycle_inv_def)
  then have b: "history_ok (pending s) (effects s @ [e]) (promises s)" by (rule assms(2))
  have p: "pending (s \<lparr> effects := effects s @ [e] \<rparr>) = pending s"
    by (simp add: pending_def split: suspended.splits)
  show ?thesis
    using assms(1) b assms(3) unfolding lifecycle_inv_def p
    by (cases "suspended_at s") (simp_all add: queue_ok_def)
qed

lemma lifecycle_processQueue:
  assumes "lifecycle_inv s"
  shows "lifecycle_inv (processQueue s)"
proof (cases "processing s")
  case True
  then show ?thesis using assms by (simp add: processQueue_def)
next
  case False
  then have "queue s = []" using lifecycle_processing [OF assms] by simp
  then show ?thesis using assms by (simp add: processQueue_def)
qed

lemma lifecycle_queueRequest:
  assumes "lifecycle_inv s"
  shows "lifecycle_inv (queueRequest s m f)"
proof -
  let ?new = "\<lparr> method_name = m, executeFn = f, promise = promises s,
                  retries = 0, maxRetries = 3 \<rparr>"
  let ?s1 = "s \<lparr> queue := queue s @ [?new], promises := promises s + 1 \<rparr>"
  have b: "history_ok (pending s) (effects s) (promises s)" using assms by (simp add: lifecycle_inv_def)
  have fresh: "attempts (promises s) (effects s) = 0" using b by (rule attempts_fresh)
  have b1: "history_ok (pending s @ [?new]) (effects s) (Suc (promises s))"
    using b by (rule history_ok_submit) simp
  have q1: "queue_ok (queue s @ [?new]) (effects s)"
    using assms fresh by (simp add: lifecycle_inv_def queue_ok_def)
  show ?thesis
  proof (cases "processing s")
    case True
    have "lifecycle_inv ?s1"
      using assms b1 q1 True
      by (cases "suspended_at s") (simp_all add: lifecycle_inv_def pending_def)
    then show ?thesis using True by (simp add: queueRequest_def processQueue_def)
  next
    case False
    then have idle: "suspended_at s = NotRunning" "queue s = []"
      using lifecycle_processing [OF assms] by simp_all
    have "loop_ready (?s1 \<lparr> processing := True \<rparr>)"
      using b1 q1 idle by (simp add: loop_ready_def pending_def)
    then have "lifecycle_inv (processQueue_loop (?s1 \<lparr> processing := True \<rparr>))" by (rule loop_ready_inv)
    then show ?thesis using False by (simp add: queueRequest_def processQueue_def)
  qed
qed

lemma lifecycle_settled:
  assumes "lifecycle_inv s" and "suspended_at s = AwaitExec req"
  shows "lifecycle_inv (processQueue_settled s req out)"
proof -
  have b: "history_ok (req # queue s) (effects s) (promises s)"
    and q: "queue_ok (queue s) (effects s)" and p: "processing s"
    and a: "attempts (promise req) (effects s) = retries req + 1"
    and r3: "retries req \<le> 3" and m3: "maxRetries req = 3"
    using assms by (simp_all add: lifecycle_inv_def pending_def)
  show ?thesis
  proof (cases out)
    case (Fulfilled v)
    have "history_ok (queue s) (effects s @ [Resolve req v]) (promises s)"
      using b a r3 by (rule history_ok_Resolve)
    then have "loop_ready (s \<lparr> effects := effects s @ [Resolve req v] \<rparr>)"
      using q p by (simp add: loop_ready_def)
    then show ?thesis using Fulfilled by (simp add: processQueue_settled_def loop_ready_inv)
  next
    case (Failed err)
    show ?thesis
    proof (cases "code err = Some 429 \<and> retries req < maxRetries req")
      case True
      let ?req' = "req \<lparr> retries := retries req + 1 \<rparr>"
      have "history_ok (?req' # queue s) (effects s) (promises s)"
        using b by (rule history_ok_same_promise) simp
      then have "history_ok (?req' # queue s)
          (effects s @ [Emit (Retry (method_name req) (Suc (retries req)) (2 ^ Suc (retries req) * 1000))])
          (promises s)"
        by (rule history_ok_Emit)
      then show ?thesis using Failed True q p a r3 m3
        by (simp add: processQueue_settled_def Let_def lifecycle_inv_def pending_def)
    next
      case False
      then have "code err = Some 429 \<longrightarrow> retries req = 3" using r3 m3 by auto
      then have "history_ok (queue s) (effects s @ [Reject req err]) (promises s)"
        using b a r3 by (intro history_ok_Reject)
      then have "loop_ready (s \<lparr> stats := (stats s) \<lparr> failedRequests := failedRequests (stats s) + 1 \<rparr>,
                      effects := effects s @ [Reject req err] \<rparr>)"
        using q p by (simp add: loop_ready_def)
      then have "lifecycle_inv (processQueue_loop
                (s \<lparr> stats := (stats s) \<lparr> failedRequests := failedRequests (stats s) + 1 \<rparr>,
                      effects := effects s @ [Reject req err] \<rparr>))"
        by (rule loop_ready_inv)
      moreover have "processQueue_settled s req out = processQueue_loop
                (s \<lparr> stats := (stats s) \<lparr> failedRequests := failedRequests (stats s) + 1 \<rparr>,
                      effects := effects s @ [Reject req err] \<rparr>)"
        using Failed False by (auto simp: processQueue_settled_def)
      ultimately show ?thesis by simp
    qed
  next
    case FailedNullish
    have "history_ok (queue s) (effects s) (promises s)" using b by (rule history_ok_tail)
    then show ?thesis using FailedNullish q p
      by (simp add: processQueue_settled_def lifecycle_inv_def pending_def)
  qed
qed

lemma lifecycle_delayed:
  assumes "lifecycle_inv s"
  shows "lifecycle_inv (processQueue_delayed s)"
proof (cases "suspended_at s")
  case NotRunning
  then show ?thesis using assms by (simp add: processQueue_delayed_def)
next
  case (AwaitThrottle ms)
  then have "loop_ready s" using assms by (simp add: lifecycle_inv_def loop_ready_def pending_def)
  then show ?thesis using AwaitThrottle by (simp add: processQueue_delayed_def loop_ready_inv)
next
  case (AwaitExec r)
  then show ?thesis using assms by (simp add: processQueue_delayed_def)
next
  case (AwaitBackoff r ms)
  then have "loop_ready (s \<lparr> queue := r # queue s \<rparr>)"
    using assms by (simp add: lifecycle_inv_def loop_ready_def pending_def queue_ok_def)
  then show ?thesis using AwaitBackoff by (simp add: processQueue_delayed_def loop_ready_inv)
next
  case Dead
  then show ?thesis using assms by (simp add: processQueue_delayed_def)
qed

lemma lifecycle_step:
  assumes "lifecycle_inv s"
  shows "lifecycle_inv (step s e)"
proof (cases e)
  case (QueueRequest m f)
  then show ?thesis using assms by (simp add: lifecycle_queueRequest)
next
  case (TimePasses ms)
  then show ?thesis using assms
    by (cases "suspended_at s") (auto simp: lifecycle_inv_def pending_def)
next
  case SecondTimer
  have "lifecycle_inv (s \<lparr> effects := effects s @ [SecondReset] \<rparr>)"
    using assms by (rule lifecycle_effect_other) (simp_all add: history_ok_SecondReset)
  then have "lifecycle_inv (s \<lparr> secondlyCredits := Num 0, lastResetSecond := now s,
            effects := effects s @ [SecondReset] \<rparr>)"
    by (cases "suspended_at s") (auto simp: lifecycle_inv_def pending_def)
  then show ?thesis using SecondTimer by (simp add: resetSecond_def lifecycle_processQueue)
next
  case (DayTimer d)
  have "lifecycle_inv (s \<lparr> effects := effects s @ [DayReset] \<rparr>)"
    using assms by (rule lifecycle_effect_other) (simp_all add: history_ok_DayReset)
  then have "lifecycle_inv (s \<lparr> dailyCredits := Num 0, lastResetDay := d,
               stats := (stats s) \<lparr> dailyCreditsUsed := Num 0 \<rparr>,
               effects := effects s @ [DayReset] \<rparr>)"
    by (cases "suspended_at s") (auto simp: lifecycle_inv_def pending_def)
  then show ?thesis using DayTimer assms by (simp add: resetDay_def)
next
  case MonitorTimer
  have "lifecycle_inv (s \<lparr> effects := effects s @ [Emit (Warning ''daily_limit'' (getStats s))] \<rparr>)"
    using assms by (rule lifecycle_effect_other) (simp_all add: history_ok_Emit)
  then show ?thesis using MonitorTimer assms by (simp add: monitor_def Let_def)
next
  case (Settled out)
  then show ?thesis using assms
    by (cases "suspended_at s") (simp_all add: lifecycle_settled)
next
  case DelayElapsed
  then show ?thesis using assms by (simp add: lifecycle_delayed)
qed

lemma lifecycle_run: "lifecycle_inv s \<Longrightarrow> lifecycle_inv (run s es)"
  unfolding run_def by (induction es arbitrary: s) (simp_all add: lifecycle_step)

lemma lifecycle_constructor: "lifecycle_inv (constructor t d)"
  by (simp add: lifecycle_inv_def constructor_def pending_def history_ok_def order_inv0_def queue_ok_def)

lemma pending_queueRequest:
  assumes "lifecycle_inv s"
  shows "pending (queueRequest s m f)
           = pending s @ [\<lparr> method_name = m, executeFn = f, promise = promises s,
                               retries = 0, maxRetries = 3 \<rparr>]"
    and "promises (queueRequest s m f) = promises s + 1"
proof -
  let ?new = "\<lparr> method_name = m, executeFn = f, promise = promises s,
                  retries = 0, maxRetries = 3 \<rparr>"
  let ?s1 = "s \<lparr> queue := queue s @ [?new], promises := promises s + 1 \<rparr>"
  show "promises (queueRequest s m f) = promises s + 1"
    by (cases "?s1 \<lparr> processing := True \<rparr>" rule: processQueue_loop_cases)
       (simp_all add: queueRequest_def processQueue_def)
  show "pending (queueRequest s m f) = pending s @ [?new]"
  proof (cases "processing s")
    case True
    then show ?thesis
      by (simp add: queueRequest_def processQueue_def pending_def split: suspended.splits)
  next
    case False
    then have idle: "suspended_at s = NotRunning" "queue s = []"
      using lifecycle_processing [OF assms] by simp_all
    show ?thesis
      by (cases "?s1 \<lparr> processing := True \<rparr>" rule: processQueue_loop_cases)
         (use False idle in \<open>simp_all add: queueRequest_def processQueue_def pending_def\<close>)
  qed
qed

subsection \<open>Warnings come from the monitoring callback\<close>

lemma warnings_snoc:
  "warnings (effs @ [e]) = (if is_warning e then warnings effs @ [e] else warnings effs)"
  by (simp add: warnings_def)

lemma warnings_loop: "warnings (effects (processQueue_loop s)) = warnings (effects s)"
  using loop_effects [of s] by (auto simp: warnings_def)

lemma warnings_processQueue: "warnings (effects (processQueue s)) = warnings (effects s)"
  by (simp add: processQueue_def warnings_loop)

lemma warnings_step:
  "e \<noteq> MonitorTimer \<Longrightarrow> warnings (effects (step s e)) = warnings (effects s)"
proof (cases e)
  case (Settled out)
  show ?thesis
  proof (cases "suspended_at s")
    case (AwaitExec req)
    then show ?thesis using Settled
      by (simp add: processQueue_settled_def Let_def warnings_loop warnings_snoc
            split: outcome.splits)
  qed (use Settled in simp_all)
next
  case DelayElapsed
  then show ?thesis
    by (simp add: processQueue_delayed_def warnings_loop warnings_snoc split: suspended.splits)
qed (simp_all add: queueRequest_def resetSecond_def resetDay_def warnings_processQueue
       warnings_snoc)

lemma warnings_run:
  "MonitorTimer \<notin> set es \<Longrightarrow> warnings (effects (run s es)) = warnings (effects s)"
  unfolding run_def by (induction es arbitrary: s) (auto simp: warnings_step)

subsection \<open>The example runs\<close>

lemma windowCost_append [simp]:
  "windowCost t0 (a @ b) = windowCost t0 a + windowCost t0 b"
  by (simp add: windowCost_def)

lemma quiet_constructor: "quiet (constructor t d)"
  by (simp add: quiet_def constructor_def)

lemma serve_one:
  assumes "quiet s"
    and "secondlyCredits s = Num a" and "dailyCredits s = Num b"
    and "getCreditsForMethod m = Num c"
    and "a + c \<le> 400" and "b + c \<le> 3000000"
  shows "quiet (run s [QueueRequest m f, Settled (Fulfilled v)])"
    and "secondlyCredits (run s [QueueRequest m f, Settled (Fulfilled v)]) = Num (a + c)"
    and "dailyCredits (run s [QueueRequest m f, Settled (Fulfilled v)]) = Num (b + c)"
    and "now (run s [QueueRequest m f, Settled (Fulfilled v)]) = now s"
    and "lastResetSecond (run s [QueueRequest m f, Settled (Fulfilled v)]) = lastResetSecond s"
    and "throttledRequests (stats (run s [QueueRequest m f, Settled (Fulfilled v)]))
           = throttledRequests (stats s)"
    and "failedRequests (stats (run s [QueueRequest m f, Settled (Fulfilled v)]))
           = failedRequests (stats s)"
    and "promises (run s [QueueRequest m f, Settled (Fulfilled v)]) = Suc (promises s)"
    and "effects (run s [QueueRequest m f, Settled (Fulfilled v)])
           = effects s @
             [Execute (now s) \<lparr> method_name = m, executeFn = f, promise = promises s,
                                 retries = 0, maxRetries = 3 \<rparr>,
              Resolve \<lparr> method_name = m, executeFn = f, promise = promises s,
                        retries = 0, maxRetries = 3 \<rparr> v]"
  using assms
  by (simp_all add: quiet_def run_def queueRequest_def processQueue_def processQueue_loop_def
        canProceed_def trackUsage_def processQueue_settled_def Let_def
        SAFE_CREDITS_PER_SECOND_def MAX_CREDITS_PER_DAY_def)

text \<open>The same once the counters are strings: nothing is compared any more.\<close>

lemma serve_one_text:
  assumes "quiet s"
    and "secondlyCredits s = Text" and "dailyCredits s = Text"
  shows "quiet (run s [QueueRequest m f, Settled (Fulfilled v)])"
    and "secondlyCredits (run s [QueueRequest m f, Settled (Fulfilled v)]) = Text"
    and "dailyCredits (run s [QueueRequest m f, Settled (Fulfilled v)]) = Text"
    and "throttledRequests (stats (run s [QueueRequest m f, Settled (Fulfilled v)]))
           = throttledRequests (stats s)"
    and "effects (run s [QueueRequest m f, Settled (Fulfilled v)])
           = effects s @
             [Execute (now s) \<lparr> method_name = m, executeFn = f, promise = promises s,
                                 retries = 0, maxRetries = 3 \<rparr>,
              Resolve \<lparr> method_name = m, executeFn = f, promise = promises s,
                        retries = 0, maxRetries = 3 \<rparr> v]"
  using assms
  by (simp_all add: quiet_def run_def queueRequest_def processQueue_def processQueue_loop_def
        canProceed_def trackUsage_def processQueue_settled_def Let_def)

lemma transactions_Suc:
  "transactions (Suc n) =
     [QueueRequest ''eth_sendRawTransaction'' 0, Settled (Fulfilled ''0x1'')] @ transactions n"
  by (simp add: transactions_def)

lemma serve_many:
  assumes "quiet s"
    and "secondlyCredits s = Num a" and "dailyCredits s = Num b"
    and "a + 20 * int n \<le> 400"
    and "b + 20 * int n \<le> 3000000"
  shows "quiet (run s (transactions n))
    \<and> secondlyCredits (run s (transactions n)) = Num (a + 20 * int n)
    \<and> dailyCredits (run s (transactions n)) = Num (b + 20 * int n)
    \<and> now (run s (transactions n)) = now s
    \<and> lastResetSecond (run s (transactions n)) = lastResetSecond s
    \<and> throttledRequests (stats (run s (transactions n))) = throttledRequests (stats s)
    \<and> failedRequests (stats (run s (transactions n))) = failedRequests (stats s)
    \<and> promises (run s (transactions n)) = promises s + n
    \<and> windowCost t0 (effects (run s (transactions n)))
        = windowCost t0 (effects s)
          + (if t0 \<le> now s \<and> now s < t0 + 1000 then 20 * int n else 0)"
  using assms
proof (induction n arbitrary: s a b)
  case 0
  then show ?case by (simp add: transactions_def run_def)
next
  case (Suc n)
  let ?p = "[QueueRequest ''eth_sendRawTransaction'' 0, Settled (Fulfilled ''0x1'')]"
  let ?s1 = "run s ?p"
  have a1: "a + 20 \<le> 400" and a2: "b + 20 \<le> 3000000"
    using Suc.prems by simp_all
  note one = serve_one [OF Suc.prems(1,2,3) cost_eth_sendRawTransaction a1 a2, of 0 "''0x1''"]
  have s1: "a + 20 + 20 * int n \<le> 400"
    and d1: "b + 20 + 20 * int n \<le> 3000000"
    using Suc.prems by simp_all
  note ih = Suc.IH [OF one(1) one(2) one(3) s1 d1]
  have r: "run s (transactions (Suc n)) = run ?s1 (transactions n)"
    by (simp only: transactions_Suc run_append)
  have w: "windowCost t0 (effects ?s1)
           = windowCost t0 (effects s) + (if t0 \<le> now s \<and> now s < t0 + 1000 then 20 else 0)"
    unfolding one(9) by (simp add: windowCost_def credits_of_eth_sendRawTransaction)
  show ?case
    unfolding r using ih one(4-8) w by (simp add: algebra_simps)
qed

lemma serve_many_text:
  assumes "quiet s"
    and "secondlyCredits s = Text" and "dailyCredits s = Text"
  shows "quiet (run s (transactions n))
    \<and> secondlyCredits (run s (transactions n)) = Text
    \<and> dailyCredits (run s (transactions n)) = Text
    \<and> throttledRequests (stats (run s (transactions n))) = throttledRequests (stats s)
    \<and> costSince SecondReset (effects (run s (transactions n)))
        = costSince SecondReset (effects s) + 20 * int n
    \<and> length (executions (effects (run s (transactions n))))
        = length (executions (effects s)) + n
    \<and> (SecondReset \<in> set (effects (run s (transactions n))))
        = (SecondReset \<in> set (effects s))"
  using assms
proof (induction n arbitrary: s)
  case 0
  then show ?case by (simp add: transactions_def run_def)
next
  case (Suc n)
  let ?p = "[QueueRequest ''eth_sendRawTransaction'' 0, Settled (Fulfilled ''0x1'')]"
  let ?s1 = "run s ?p"
  note one = serve_one_text [OF Suc.prems, of "''eth_sendRawTransaction''" 0 "''0x1''"]
  note ih = Suc.IH [OF one(1) one(2) one(3)]
  have r: "run s (transactions (Suc n)) = run ?s1 (transactions n)"
    by (simp only: transactions_Suc run_append)
  have w: "costSince SecondReset (effects ?s1) = costSince SecondReset (effects s) + 20"
    "length (executions (effects ?s1)) = length (executions (effects s)) + 1"
    "(SecondReset \<in> set (effects ?s1)) = (SecondReset \<in> set (effects s))"
    unfolding one(5) by (simp_all add: costSince_def credits_of_eth_sendRawTransaction)
  show ?case
    unfolding r using ih one(4) w by (simp add: algebra_simps)
qed

lemma tick_between:
  assumes "quiet s"
  shows "quiet (run s [TimePasses a, SecondTimer, TimePasses b])
    \<and> secondlyCredits (run s [TimePasses a, SecondTimer, TimePasses b]) = Num 0
    \<and> dailyCredits (run s [TimePasses a, SecondTimer, TimePasses b]) = dailyCredits s
    \<and> now (run s [TimePasses a, SecondTimer, TimePasses b]) = now s + a + b
    \<and> lastResetSecond (run s [TimePasses a, SecondTimer, TimePasses b]) = now s + a
    \<and> throttledRequests (stats (run s [TimePasses a, SecondTimer, TimePasses b]))
        = throttledRequests (stats s)
    \<and> windowCost t0 (effects (run s [TimePasses a, SecondTimer, TimePasses b]))
        = windowCost t0 (effects s)"
  using assms
  by (simp add: quiet_def run_def resetSecond_def processQueue_def windowCost_def)

lemma full_second_facts:
  "quiet full_second"
  "secondlyCredits full_second = Num 400"
  "dailyCredits full_second = Num 400"
  "now full_second = 0"
  "throttledRequests (stats full_second) = 0"
  "failedRequests (stats full_second) = 0"
proof -
  have "secondlyCredits (constructor 0 ''Mon Nov 02 2026'') = Num 0"
    "dailyCredits (constructor 0 ''Mon Nov 02 2026'') = Num 0"
    "0 + 20 * int 20 \<le> (400::int)" "0 + 20 * int 20 \<le> (3000000::int)"
    by (simp_all add: constructor_def)
  note m = serve_many [OF quiet_constructor this, of 0]
  show "quiet full_second" using m by (simp add: full_second_def)
  show "secondlyCredits full_second = Num 400" using m by (simp add: full_second_def)
  show "dailyCredits full_second = Num 400" using m by (simp add: full_second_def)
  show "now full_second = 0" using m by (simp add: full_second_def constructor_def)
  show "throttledRequests (stats full_second) = 0"
    using m by (simp add: full_second_def constructor_def)
  show "failedRequests (stats full_second) = 0"
    using m by (simp add: full_second_def constructor_def)
qed

lemma full_second_credits:
  "secondlyCredits full_second = Num 400" "dailyCredits full_second = Num 400"
  by (rule full_second_facts)+

lemma full_second_idle:
  "queue full_second = []" "processing full_second = False"
  "suspended_at full_second = NotRunning" "failedRequests (stats full_second) = 0"
  "throttledRequests (stats full_second) = 0" "now full_second = 0"
  using full_second_facts by (simp_all add: quiet_def)

lemma first_attempt_fields:
  "suspended_at first_attempt =
     AwaitExec \<lparr> method_name = ''eth_call'', executeFn = 1, promise = 0, retries = 0, maxRetries = 3 \<rparr>"
  "failedRequests (stats first_attempt) = 0"
  "settlements (effects first_attempt) = []"
  by (simp_all add: first_attempt_def settlements_def evaluate)

lemma backing_off_fields:
  "suspended_at backing_off =
     AwaitBackoff \<lparr> method_name = ''eth_sendRawTransaction'', executeFn = 0, promise = 0,
                    retries = 1, maxRetries = 3 \<rparr> 2000"
  "map promise (queue backing_off) = [1, 2]"
  "map promise (pending backing_off) = [0, 1, 2]"
  "promises backing_off = 3"
  "secondlyCredits backing_off = Num 20"
  "dailyCredits backing_off = Num 20"
  by (simp_all add: backing_off_def pending_def evaluate)

lemma fourth_attempt_fields:
  "suspended_at fourth_attempt =
     AwaitExec \<lparr> method_name = ''eth_call'', executeFn = 1, promise = 0, retries = 3, maxRetries = 3 \<rparr>"
  "failedRequests (stats fourth_attempt) = 0"
  "settlements (effects fourth_attempt) = []"
  by (simp_all add: fourth_attempt_def three_retries_def settlements_def evaluate)

lemma first_backoff_fields:
  "suspended_at first_backoff =
     AwaitBackoff \<lparr> method_name = ''eth_call'', executeFn = 1, promise = 0, retries = 1,
                    maxRetries = 3 \<rparr> 2000"
  "queue first_backoff = []"
  by (simp_all add: first_backoff_def three_retries_def evaluate)

lemma straddling_run:
  "windowCost 900 (effects (run (constructor 0 ''Mon Nov 02 2026'') straddling_the_reset)) = 440"
  "lastResetSecond (run (constructor 0 ''Mon Nov 02 2026'') straddling_the_reset) = 1000"
  "throttledRequests (stats (run (constructor 0 ''Mon Nov 02 2026'') straddling_the_reset)) = 0"
  "secondlyCredits (run (constructor 0 ''Mon Nov 02 2026'') straddling_the_reset) = Num 220"
  "dailyCredits (run (constructor 0 ''Mon Nov 02 2026'') straddling_the_reset) = Num 440"
proof -
  let ?s0 = "step (constructor 0 ''Mon Nov 02 2026'') (TimePasses 900)"
  let ?s1 = "run ?s0 (transactions 11)"
  let ?s2 = "run ?s1 [TimePasses 100, SecondTimer, TimePasses 100]"
  let ?s3 = "run ?s2 (transactions 11)"
  have r: "run (constructor 0 ''Mon Nov 02 2026'') straddling_the_reset = ?s3"
    by (simp only: straddling_the_reset_def run_append run_Cons)
  have q0: "quiet ?s0" and f0: "secondlyCredits ?s0 = Num 0" "dailyCredits ?s0 = Num 0"
    and g0: "now ?s0 = 900"
    "throttledRequests (stats ?s0) = 0" "windowCost 900 (effects ?s0) = 0"
    by (simp_all add: quiet_def constructor_def windowCost_def)
  have "0 + 20 * int 11 \<le> (400::int)" "0 + 20 * int 11 \<le> (3000000::int)"
    by simp_all
  note m1 = serve_many [OF q0 f0 this, of 900]
  have q1: "quiet ?s1" using m1 by blast
  note t2 = tick_between [OF q1, of 100 100 900]
  have q2: "quiet ?s2" using t2 by blast
  have f2: "secondlyCredits ?s2 = Num 0" "dailyCredits ?s2 = Num 220"
    using t2 m1 by simp_all
  have "0 + 20 * int 11 \<le> (400::int)" "220 + 20 * int 11 \<le> (3000000::int)"
    by simp_all
  note m3 = serve_many [OF q2 f2 this, of 900]
  have n2: "now ?s2 = 1100" using t2 m1 g0 by simp
  show "windowCost 900 (effects (run (constructor 0 ''Mon Nov 02 2026'') straddling_the_reset)) = 440"
    unfolding r using m3 t2 m1 g0 n2 by simp
  show "lastResetSecond (run (constructor 0 ''Mon Nov 02 2026'') straddling_the_reset) = 1000"
    unfolding r using m3 t2 m1 g0 by simp
  show "throttledRequests (stats (run (constructor 0 ''Mon Nov 02 2026'') straddling_the_reset)) = 0"
    unfolding r using m3 t2 m1 g0 by simp
  show "secondlyCredits (run (constructor 0 ''Mon Nov 02 2026'') straddling_the_reset) = Num 220"
    unfolding r using m3 by simp
  show "dailyCredits (run (constructor 0 ''Mon Nov 02 2026'') straddling_the_reset) = Num 440"
    unfolding r using m3 by simp
qed

lemma straddling_well_priced: "\<forall>e \<in> set straddling_the_reset. well_priced e"
  by (auto simp: straddling_the_reset_def transactions_def Object_prototype_def)

lemma busy_second_run:
  assumes "quiet s" and "secondlyCredits s = Num 0" and "dailyCredits s = Num b"
    and "b + 400 \<le> 3000000"
  shows "quiet (run s busy_second) \<and> secondlyCredits (run s busy_second) = Num 0
         \<and> dailyCredits (run s busy_second) = Num (b + 400)"
proof -
  have "0 + 20 * int 20 \<le> (400::int)" "b + 20 * int 20 \<le> 3000000"
    using assms by simp_all
  note m = serve_many [OF assms(1,2,3) this, of 0]
  have "quiet (run s (transactions 20))" using m by blast
  then show ?thesis using m
    by (simp add: busy_second_def run_append quiet_def run_def resetSecond_def processQueue_def)
qed

lemma busy_seconds_run:
  assumes "quiet s" and "secondlyCredits s = Num 0" and "dailyCredits s = Num b"
    and "b + 400 * int n \<le> 3000000"
  shows "quiet (run s (concat (replicate n busy_second)))
         \<and> secondlyCredits (run s (concat (replicate n busy_second))) = Num 0
         \<and> dailyCredits (run s (concat (replicate n busy_second))) = Num (b + 400 * int n)"
  using assms
proof (induction n arbitrary: s b)
  case 0
  then show ?case by (simp add: run_def)
next
  case (Suc n)
  have "b + 400 \<le> 3000000" using Suc.prems(4) by simp
  note one = busy_second_run [OF Suc.prems(1,2,3) this]
  have "b + 400 + 400 * int n \<le> 3000000" using Suc.prems(4) by simp
  then have "quiet (run (run s busy_second) (concat (replicate n busy_second)))
         \<and> secondlyCredits (run (run s busy_second) (concat (replicate n busy_second))) = Num 0
         \<and> dailyCredits (run (run s busy_second) (concat (replicate n busy_second)))
             = Num (b + 400 + 400 * int n)"
    using Suc.IH [of "run s busy_second" "b + 400"] one by blast
  then show ?case by (simp add: run_append algebra_simps)
qed

lemma no_monitor_in_exhausting_the_day: "MonitorTimer \<notin> set exhausting_the_day"
  by (auto simp: exhausting_the_day_def busy_second_def transactions_def)

lemma exhausted_day:
  "dailyCredits (run (constructor 0 ''Mon Nov 02 2026'') exhausting_the_day) = Num 3000000"
  "warnings (effects (run (constructor 0 ''Mon Nov 02 2026'') exhausting_the_day)) = []"
proof -
  have "secondlyCredits (constructor 0 ''Mon Nov 02 2026'') = Num 0"
    "dailyCredits (constructor 0 ''Mon Nov 02 2026'') = Num 0"
    "0 + 400 * int 7500 \<le> (3000000::int)"
    by (simp_all add: constructor_def)
  note b = busy_seconds_run [OF quiet_constructor this]
  show "dailyCredits (run (constructor 0 ''Mon Nov 02 2026'') exhausting_the_day) = Num 3000000"
    unfolding exhausting_the_day_def using b by simp
  have "warnings (effects (run (constructor 0 ''Mon Nov 02 2026'') exhausting_the_day))
        = warnings (effects (constructor 0 ''Mon Nov 02 2026''))"
    by (rule warnings_run [OF no_monitor_in_exhausting_the_day])
  then show "warnings (effects (run (constructor 0 ''Mon Nov 02 2026'') exhausting_the_day)) = []"
    by (simp add: constructor_def warnings_def)
qed

lemma unpriced_second_run:
  "secondlyCredits (run (constructor 0 ''Mon Nov 02 2026'') unpriced_second) = Text"
  "dailyCredits (run (constructor 0 ''Mon Nov 02 2026'') unpriced_second) = Text"
  "throttledRequests (stats (run (constructor 0 ''Mon Nov 02 2026'') unpriced_second)) = 0"
  "costSince SecondReset (effects (run (constructor 0 ''Mon Nov 02 2026'') unpriced_second)) = 600"
  "length (executions (effects (run (constructor 0 ''Mon Nov 02 2026'') unpriced_second))) = 31"
  "SecondReset \<notin> set (effects (run (constructor 0 ''Mon Nov 02 2026'') unpriced_second))"
proof -
  let ?s0 = "run (constructor 0 ''Mon Nov 02 2026'')
               [QueueRequest ''toString'' 0, Settled (Fulfilled ''0x1'')]"
  have r: "run (constructor 0 ''Mon Nov 02 2026'') unpriced_second = run ?s0 (transactions 30)"
    by (simp add: unpriced_second_def run_def)
  have q0: "quiet ?s0" and f0: "secondlyCredits ?s0 = Text" "dailyCredits ?s0 = Text"
    and g0: "throttledRequests (stats ?s0) = 0"
    "costSince SecondReset (effects ?s0) = 0" "length (executions (effects ?s0)) = 1"
    "SecondReset \<notin> set (effects ?s0)"
    by (simp_all add: quiet_def costSince_def credits_of_def cost_toString run_def
          queueRequest_def processQueue_def processQueue_loop_def canProceed_def trackUsage_def
          processQueue_settled_def constructor_def Let_def)
  note m = serve_many_text [OF q0 f0, of 30]
  show "secondlyCredits (run (constructor 0 ''Mon Nov 02 2026'') unpriced_second) = Text"
    unfolding r using m by simp
  show "dailyCredits (run (constructor 0 ''Mon Nov 02 2026'') unpriced_second) = Text"
    unfolding r using m by simp
  show "throttledRequests (stats (run (constructor 0 ''Mon Nov 02 2026'') unpriced_second)) = 0"
    unfolding r using m g0 by simp
  show "costSince SecondReset (effects (run (constructor 0 ''Mon Nov 02 2026'') unpriced_second)) = 600"
    unfolding r using m g0 by simp
  show "length (executions (effects (run (constructor 0 ''Mon Nov 02 2026'') unpriced_second))) = 31"
    unfolding r using m g0 by simp
  show "SecondReset \<notin> set (effects (run (constructor 0 ''Mon Nov 02 2026'') unpriced_second))"
    unfolding r using m g0 by simp
qed

text \<open>
  A first execution whose promise is rejected with \<^verbatim>\<open>undefined\<close>, followed by another
  submission and, a second later, the reset of the per-second counter.
\<close>

lemma stalled_run:
  "suspended_at (step first_attempt (Settled FailedNullish)) = Dead"
  "processing (step first_attempt (Settled FailedNullish))"
  "settlements (effects (step first_attempt (Settled FailedNullish))) = []"
  "failedRequests (stats (step first_attempt (Settled FailedNullish))) = 0"
  "queue (step first_attempt (Settled FailedNullish)) = []"
  "executions (effects (run first_attempt stalling)) = [eth_call_first]"
  "settlements (effects (run first_attempt stalling)) = []"
  "failedRequests (stats (run first_attempt stalling)) = 0"
  "processing (run first_attempt stalling)"
  "map method_name (queue (run first_attempt stalling)) = [''eth_getBalance'']"
  by (simp_all add: first_attempt_def stalling_def eth_call_first_def settlements_def evaluate)

text \<open>
  A rejection with a value that has properties, when it is not a 429 error to be
  retried: the same step counts the failure and rejects the caller with that value,
  and the loop goes on; no retry event, no backoff, and the entry is not put back.
\<close>

lemma failure_with_an_error:
  assumes "suspended_at s = AwaitExec req"
    and "code err \<noteq> Some 429 \<or> \<not> retries req < maxRetries req"
  shows "step s (Settled (Failed err)) =
           processQueue_loop
             (s \<lparr> stats := (stats s) \<lparr> failedRequests := failedRequests (stats s) + 1 \<rparr>,
                  effects := effects s @ [Reject req err] \<rparr>)
         \<and> failedRequests (stats (step s (Settled (Failed err)))) = failedRequests (stats s) + 1
         \<and> take (Suc (length (effects s))) (effects (step s (Settled (Failed err))))
             = effects s @ [Reject req err]
         \<and> settlements (effects (step s (Settled (Failed err))))
             = settlements (effects s) @ [Reject req err]
         \<and> (\<forall>m k ms. Emit (Retry m k ms) \<notin> set (drop (length (effects s)) (effects (step s (Settled (Failed err))))))
         \<and> (\<forall>r ms. suspended_at (step s (Settled (Failed err))) \<noteq> AwaitBackoff r ms)
         \<and> (queue (step s (Settled (Failed err))) = queue s
              \<or> queue (step s (Settled (Failed err))) = tl (queue s))"
proof -
  let ?s1 = "s \<lparr> stats := (stats s) \<lparr> failedRequests := failedRequests (stats s) + 1 \<rparr>,
                  effects := effects s @ [Reject req err] \<rparr>"
  have eq: "step s (Settled (Failed err)) = processQueue_loop ?s1"
    using assms by (auto simp: processQueue_settled_def)
  have eff: "effects (processQueue_loop ?s1) = effects ?s1
   \<or> (\<exists>m rsn. effects (processQueue_loop ?s1) = effects ?s1 @ [Emit (Throttled m rsn)])
   \<or> (\<exists>t r. effects (processQueue_loop ?s1) = effects ?s1 @ [Execute t r])"
    by (rule loop_effects)
  have q: "queue (processQueue_loop ?s1) = queue ?s1 \<or> queue (processQueue_loop ?s1) = tl (queue ?s1)"
    by (rule loop_queue)
  show ?thesis
    unfolding eq using eff q loop_not_backoff [of ?s1]
    by (auto simp: settlements_def)
qed

section \<open>The claims\<close>

text \<open>
  C1. The counters do not stay within their limits in every reachable state. A
  submission whose method name is a property that \<^verbatim>\<open>CREDIT_COSTS\<close> inherits from
  \<^verbatim>\<open>Object.prototype\<close> is priced with that property: for \<^verbatim>\<open>toString\<close> it is a
  function, and adding it turns both counters into strings. While the counters are
  strings neither comparison of \<open>canProceed\<close> holds, whatever the method. After
  one such call, thirty transactions submitted within the same second are all
  executed without throttling: 600 credits of transactions since the construction,
  with no reset of the per-second counter in between, and 31 executions in all.
\<close>

theorem inherited_cost_lifts_the_limits:
  "getCreditsForMethod ''toString'' = Inherited
   \<and> fst (canProceed (s \<lparr> secondlyCredits := Text, dailyCredits := Text \<rparr>) m)
       = \<lparr> allowed = True, reason = None \<rparr>
   \<and> secondlyCredits (run (constructor 0 ''Mon Nov 02 2026'') unpriced_second) = Text
   \<and> dailyCredits (run (constructor 0 ''Mon Nov 02 2026'') unpriced_second) = Text
   \<and> SecondReset \<notin> set (effects (run (constructor 0 ''Mon Nov 02 2026'') unpriced_second))
   \<and> costSince SecondReset (effects (run (constructor 0 ''Mon Nov 02 2026'') unpriced_second)) = 600
   \<and> 600 > SAFE_CREDITS_PER_SECOND
   \<and> length (executions (effects (run (constructor 0 ''Mon Nov 02 2026'') unpriced_second))) = 31
   \<and> throttledRequests (stats (run (constructor 0 ''Mon Nov 02 2026'') unpriced_second)) = 0"
proof -
  have "fst (canProceed (s \<lparr> secondlyCredits := Text, dailyCredits := Text \<rparr>) m)
       = \<lparr> allowed = True, reason = None \<rparr>"
    by (cases "getCreditsForMethod m") (simp_all add: canProceed_def Let_def)
  then show ?thesis
    using unpriced_second_run by (simp add: cost_toString SAFE_CREDITS_PER_SECOND_def)
qed

text \<open>
  C2, as amended. With \<open>c = getCreditsForMethod m\<close>, \<open>canProceed\<close> denies with the
  reason \<^verbatim>\<open>Daily credit limit exceeded\<close> when \<open>dailyCredits + c > 3000000\<close>, whatever
  the per-second counter (the daily test comes first); otherwise it denies with the
  reason \<^verbatim>\<open>Per-second rate limit\<close> when \<open>secondlyCredits + c > 400\<close>; otherwise it
  allows, with no reason; and it leaves the state as it found it. The sums and the
  comparisons are those of JavaScript; for counters and a cost that are numbers
  they are those of the integers.
\<close>

theorem canProceed_decision:
  "(js_gt (js_plus (dailyCredits s) (getCreditsForMethod m)) 3000000 \<longrightarrow>
      fst (canProceed s m)
        = \<lparr> allowed = False, reason = Some ''Daily credit limit exceeded'' \<rparr>)
   \<and> (\<not> js_gt (js_plus (dailyCredits s) (getCreditsForMethod m)) 3000000 \<and>
        js_gt (js_plus (secondlyCredits s) (getCreditsForMethod m)) 400 \<longrightarrow>
      fst (canProceed s m)
        = \<lparr> allowed = False, reason = Some ''Per-second rate limit'' \<rparr>)
   \<and> (\<not> js_gt (js_plus (dailyCredits s) (getCreditsForMethod m)) 3000000 \<and>
        \<not> js_gt (js_plus (secondlyCredits s) (getCreditsForMethod m)) 400 \<longrightarrow>
      fst (canProceed s m) = \<lparr> allowed = True, reason = None \<rparr>)
   \<and> snd (canProceed s m) = s
   \<and> (dailyCredits s = Num b \<and> secondlyCredits s = Num a \<and> getCreditsForMethod m = Num c \<longrightarrow>
        (b + c > 3000000 \<longrightarrow>
           fst (canProceed s m)
             = \<lparr> allowed = False, reason = Some ''Daily credit limit exceeded'' \<rparr>)
        \<and> (b + c \<le> 3000000 \<and> a + c > 400 \<longrightarrow>
           fst (canProceed s m)
             = \<lparr> allowed = False, reason = Some ''Per-second rate limit'' \<rparr>)
        \<and> (b + c \<le> 3000000 \<and> a + c \<le> 400 \<longrightarrow>
           fst (canProceed s m) = \<lparr> allowed = True, reason = None \<rparr>))"
  by (simp add: canProceed_def Let_def MAX_CREDITS_PER_DAY_def SAFE_CREDITS_PER_SECOND_def)

theorem canProceed_decision_witness:
  "dailyCredits ((constructor 0 ''Mon Nov 02 2026'') \<lparr> dailyCredits := Num 3000000 \<rparr>)
      = Num 3000000
   \<and> getCreditsForMethod ''eth_call'' = Num 15
   \<and> (3000000::int) + 15 > 3000000
   \<and> fst (canProceed ((constructor 0 ''Mon Nov 02 2026'') \<lparr> dailyCredits := Num 3000000 \<rparr>)
            ''eth_call'')
      = \<lparr> allowed = False, reason = Some ''Daily credit limit exceeded'' \<rparr>
   \<and> secondlyCredits full_second = Num 400
   \<and> dailyCredits full_second = Num 400
   \<and> (400::int) + 15 > 400
   \<and> fst (canProceed full_second ''eth_call'')
      = \<lparr> allowed = False, reason = Some ''Per-second rate limit'' \<rparr>
   \<and> fst (canProceed (constructor 0 ''Mon Nov 02 2026'') ''eth_call'')
      = \<lparr> allowed = True, reason = None \<rparr>"
  using canProceed_decision
          [where s = "(constructor 0 ''Mon Nov 02 2026'') \<lparr> dailyCredits := Num 3000000 \<rparr>"
             and m = "''eth_call''" and b = 3000000 and a = 0 and c = 15]
        canProceed_decision
          [where s = full_second and m = "''eth_call''" and b = 400 and a = 400 and c = 15]
        canProceed_decision
          [where s = "constructor 0 ''Mon Nov 02 2026''" and m = "''eth_call''"
             and b = 0 and a = 0 and c = 15]
  by (simp add: full_second_credits cost_eth_call constructor_def)

text \<open>
  C2 as stated names the reason \<^verbatim>\<open>per-second rate limit\<close>. When the second's
  budget is used up and the day's is not, the reason that \<open>canProceed\<close> gives for
  \<^verbatim>\<open>eth_call\<close> is another string.
\<close>

theorem canProceed_reason_counterexample:
  "js_plus (dailyCredits full_second) (getCreditsForMethod ''eth_call'') = Num 415
   \<and> \<not> js_gt (js_plus (dailyCredits full_second) (getCreditsForMethod ''eth_call'')) 3000000
   \<and> js_plus (secondlyCredits full_second) (getCreditsForMethod ''eth_call'') = Num 415
   \<and> js_gt (js_plus (secondlyCredits full_second) (getCreditsForMethod ''eth_call'')) 400
   \<and> reason (fst (canProceed full_second ''eth_call'')) = Some ''Per-second rate limit''
   \<and> reason (fst (canProceed full_second ''eth_call'')) \<noteq> Some ''per-second rate limit''"
  by (simp add: canProceed_def Let_def full_second_credits cost_eth_call
        MAX_CREDITS_PER_DAY_def SAFE_CREDITS_PER_SECOND_def)

text \<open>
  C3, as amended. In every state that the limiter reaches by submissions whose
  method names are not names of properties of \<^verbatim>\<open>Object.prototype\<close>, the credits of
  the operations executed since the latest reset of the per-second counter are
  what \<open>secondlyCredits\<close> holds and at most 400, and the credits of the operations
  executed since the latest reset of the daily counter are what \<open>dailyCredits\<close>
  holds and at most 3000000. The windows are those between two resets, not rolling
  ones.
\<close>

theorem credits_between_resets:
  assumes "list_all well_priced es"
  shows "secondlyCredits (run (constructor t d) es)
           = Num (costSince SecondReset (effects (run (constructor t d) es)))
   \<and> 0 \<le> costSince SecondReset (effects (run (constructor t d) es))
   \<and> costSince SecondReset (effects (run (constructor t d) es)) \<le> 400
   \<and> dailyCredits (run (constructor t d) es)
           = Num (costSince DayReset (effects (run (constructor t d) es)))
   \<and> 0 \<le> costSince DayReset (effects (run (constructor t d) es))
   \<and> costSince DayReset (effects (run (constructor t d) es)) \<le> 3000000"
proof -
  have "\<forall>e \<in> set es. well_priced e" using assms by (simp add: list_all_iff)
  then have "priced (run (constructor t d) es)"
    by (rule priced_run [OF priced_constructor])
  then show ?thesis
    by (simp add: priced_def priced_at_def SAFE_CREDITS_PER_SECOND_def MAX_CREDITS_PER_DAY_def)
qed

theorem credits_between_resets_witness:
  "list_all well_priced straddling_the_reset
   \<and> secondlyCredits (run (constructor 0 ''Mon Nov 02 2026'') straddling_the_reset) = Num 220
   \<and> costSince SecondReset (effects (run (constructor 0 ''Mon Nov 02 2026'') straddling_the_reset)) = 220
   \<and> dailyCredits (run (constructor 0 ''Mon Nov 02 2026'') straddling_the_reset) = Num 440
   \<and> costSince DayReset (effects (run (constructor 0 ''Mon Nov 02 2026'') straddling_the_reset)) = 440"
proof -
  have h: "list_all well_priced straddling_the_reset"
    using straddling_well_priced by (simp add: list_all_iff)
  note c = credits_between_resets [OF h, of 0 "''Mon Nov 02 2026''"]
  show ?thesis using h c straddling_run(4,5) by simp
qed

text \<open>
  C3 as stated speaks of any rolling window of one second. Eleven transactions
  executed 900 ms after the construction and eleven more at 1100 ms, with the
  per-second reset at 1000 ms between them, are all admitted without throttling,
  and the window that starts at 900 ms holds 440 credits.
\<close>

theorem rolling_window_counterexample:
  "windowCost 900 (effects (run (constructor 0 ''Mon Nov 02 2026'') straddling_the_reset)) = 440
   \<and> 440 > SAFE_CREDITS_PER_SECOND
   \<and> lastResetSecond (run (constructor 0 ''Mon Nov 02 2026'') straddling_the_reset) = 1000
   \<and> throttledRequests (stats (run (constructor 0 ''Mon Nov 02 2026'') straddling_the_reset)) = 0"
  using straddling_run(1,2,3) by (simp add: SAFE_CREDITS_PER_SECOND_def)

text \<open>
  C4. Operations are executed in the order of their submission, a retry
  included. Promises are numbered as they are submitted, and a submission goes
  behind everything that waits; along every run the promise numbers of the
  executions never decrease, so no entry is executed before an earlier one has had
  its last execution. For three submissions A, B, C whose first execution of A fails with a 429 error
  and whose other executions succeed, the effects are: A executed, the retry
  event, A executed again and resolved, then B executed and resolved, then C. The
  entry that has waited for its backoff is put at the front of the queue.
\<close>

theorem fifo_with_retry_precedence:
  assumes "code err = Some 429"
  shows "sorted (map promise (executions (effects (run (constructor t d) es))))
    \<and> (\<forall>r \<in> set (executions (effects (run (constructor t d) es)))
              \<union> set (pending (run (constructor t d) es)).
          promise r < promises (run (constructor t d) es))
    \<and> pending (queueRequest (run (constructor t d) es) m f)
        = pending (run (constructor t d) es)
          @ [\<lparr> method_name = m, executeFn = f, promise = promises (run (constructor t d) es),
               retries = 0, maxRetries = 3 \<rparr>]
    \<and> promises (queueRequest (run (constructor t d) es) m f)
        = promises (run (constructor t d) es) + 1
    \<and> effects (run (constructor t d)
           [QueueRequest mA fA, QueueRequest mB fB, QueueRequest mC fC,
            Settled (Failed err), DelayElapsed, Settled (Fulfilled vA),
            Settled (Fulfilled vB), Settled (Fulfilled vC)])
       = [Execute t \<lparr> method_name = mA, executeFn = fA, promise = 0, retries = 0, maxRetries = 3 \<rparr>,
          Emit (Retry mA 1 2000),
          Execute t \<lparr> method_name = mA, executeFn = fA, promise = 0, retries = 1, maxRetries = 3 \<rparr>,
          Resolve \<lparr> method_name = mA, executeFn = fA, promise = 0, retries = 1, maxRetries = 3 \<rparr> vA,
          Execute t \<lparr> method_name = mB, executeFn = fB, promise = 1, retries = 0, maxRetries = 3 \<rparr>,
          Resolve \<lparr> method_name = mB, executeFn = fB, promise = 1, retries = 0, maxRetries = 3 \<rparr> vB,
          Execute t \<lparr> method_name = mC, executeFn = fC, promise = 2, retries = 0, maxRetries = 3 \<rparr>,
          Resolve \<lparr> method_name = mC, executeFn = fC, promise = 2, retries = 0, maxRetries = 3 \<rparr> vC]
    \<and> (suspended_at s = AwaitBackoff r ms \<longrightarrow>
          step s DelayElapsed = processQueue_loop (s \<lparr> queue := r # queue s \<rparr>))"
proof -
  let ?w = "run (constructor t d) es"
  have i: "lifecycle_inv ?w" by (rule lifecycle_run [OF lifecycle_constructor])
  then have a: "sorted (map promise (executions (effects ?w)))"
    and a': "\<forall>r \<in> set (executions (effects ?w)) \<union> set (pending ?w). promise r < promises ?w"
    by (auto simp: lifecycle_inv_def history_ok_def order_inv0_def)
  note p = pending_queueRequest [OF i, of m f]
  have b: "effects (run (constructor t d)
           [QueueRequest mA fA, QueueRequest mB fB, QueueRequest mC fC,
            Settled (Failed err), DelayElapsed, Settled (Fulfilled vA),
            Settled (Fulfilled vB), Settled (Fulfilled vC)])
       = [Execute t \<lparr> method_name = mA, executeFn = fA, promise = 0, retries = 0, maxRetries = 3 \<rparr>,
          Emit (Retry mA 1 2000),
          Execute t \<lparr> method_name = mA, executeFn = fA, promise = 0, retries = 1, maxRetries = 3 \<rparr>,
          Resolve \<lparr> method_name = mA, executeFn = fA, promise = 0, retries = 1, maxRetries = 3 \<rparr> vA,
          Execute t \<lparr> method_name = mB, executeFn = fB, promise = 1, retries = 0, maxRetries = 3 \<rparr>,
          Resolve \<lparr> method_name = mB, executeFn = fB, promise = 1, retries = 0, maxRetries = 3 \<rparr> vB,
          Execute t \<lparr> method_name = mC, executeFn = fC, promise = 2, retries = 0, maxRetries = 3 \<rparr>,
          Resolve \<lparr> method_name = mC, executeFn = fC, promise = 2, retries = 0, maxRetries = 3 \<rparr> vC]"
    using assms
    by (simp add: run_def queueRequest_def processQueue_def processQueue_loop_def
        canProceed_at_most at_most_plus trackUsage_def processQueue_settled_def
        processQueue_delayed_def constructor_def Let_def)
  show ?thesis using a a' p b requeue_at_front by blast
qed

theorem fifo_with_retry_precedence_witness:
  "code (Error (Some 429) ''Too Many Requests'') = Some 429
   \<and> map promise (executions (effects (run (constructor 0 ''Mon Nov 02 2026'')
           [QueueRequest ''eth_sendRawTransaction'' 0, QueueRequest ''eth_call'' 1,
            QueueRequest ''eth_getBalance'' 2,
            Settled (Failed (Error (Some 429) ''Too Many Requests'')), DelayElapsed,
            Settled (Fulfilled ''0x1''), Settled (Fulfilled ''0x2''),
            Settled (Fulfilled ''0x3'')])))
     = [0, 0, 1, 2]
   \<and> suspended_at backing_off =
        AwaitBackoff \<lparr> method_name = ''eth_sendRawTransaction'', executeFn = 0, promise = 0,
                       retries = 1, maxRetries = 3 \<rparr> 2000
   \<and> map promise (queue backing_off) = [1, 2]
   \<and> suspended_at (step backing_off DelayElapsed) =
        AwaitExec \<lparr> method_name = ''eth_sendRawTransaction'', executeFn = 0, promise = 0,
                    retries = 1, maxRetries = 3 \<rparr>
   \<and> map promise (queue (step backing_off DelayElapsed)) = [1, 2]"
proof -
  have h: "code (Error (Some 429) ''Too Many Requests'') = Some 429" by simp
  note c = fifo_with_retry_precedence [OF h, where t = 0 and d = "''Mon Nov 02 2026''" and es = "[]"
      and mA = "''eth_sendRawTransaction''" and fA = 0 and mB = "''eth_call''" and fB = 1
      and mC = "''eth_getBalance''" and fC = 2 and vA = "''0x1''" and vB = "''0x2''"
      and vC = "''0x3''" and s = backing_off
      and r = "\<lparr> method_name = ''eth_sendRawTransaction'', executeFn = 0, promise = 0,
                    retries = 1, maxRetries = 3 \<rparr>" and ms = 2000]
  note eff = c [THEN conjunct2, THEN conjunct2, THEN conjunct2, THEN conjunct2, THEN conjunct1]
  note front = c [THEN conjunct2, THEN conjunct2, THEN conjunct2, THEN conjunct2,
      THEN conjunct2, rule_format, OF backing_off_fields(1)]
  have a: "map promise (executions (effects (run (constructor 0 ''Mon Nov 02 2026'')
           [QueueRequest ''eth_sendRawTransaction'' 0, QueueRequest ''eth_call'' 1,
            QueueRequest ''eth_getBalance'' 2,
            Settled (Failed (Error (Some 429) ''Too Many Requests'')), DelayElapsed,
            Settled (Fulfilled ''0x1''), Settled (Fulfilled ''0x2''),
            Settled (Fulfilled ''0x3'')]))) = [0, 0, 1, 2]"
    by (simp only: eff) simp
  have adm: "allowed (fst (canProceed
        (backing_off \<lparr> queue := \<lparr> method_name = ''eth_sendRawTransaction'', executeFn = 0,
           promise = 0, retries = 1, maxRetries = 3 \<rparr> # queue backing_off \<rparr>)
        ''eth_sendRawTransaction''))"
    by (simp add: canProceed_def Let_def backing_off_fields cost_eth_sendRawTransaction
          SAFE_CREDITS_PER_SECOND_def MAX_CREDITS_PER_DAY_def)
  have b: "suspended_at (step backing_off DelayElapsed) =
        AwaitExec \<lparr> method_name = ''eth_sendRawTransaction'', executeFn = 0, promise = 0,
                    retries = 1, maxRetries = 3 \<rparr>"
    "map promise (queue (step backing_off DelayElapsed)) = [1, 2]"
    unfolding front using adm backing_off_fields(2)
    by (simp_all add: processQueue_loop_def split_beta Let_def)
  show ?thesis using h a b backing_off_fields(1,2) by simp
qed

text \<open>
  C5. An operation whose every execution fails with a 429 error is executed four
  times: after the failures 1, 2 and 3 a retry event is emitted and the loop waits
  2000, 4000 and 8000 ms before it puts the entry at the front of the queue; the
  fourth failure rejects the caller's promise with the fourth error. Along every
  run a promise rejected with a 429 error has been executed exactly four times, no
  waiting entry has been executed more than four times, and a backoff that the loop
  waits for is 2 ^ k * 1000 ms before retry \<open>k\<close>.
\<close>

theorem bounded_retries:
  assumes "code e1 = Some 429" and "code e2 = Some 429"
    and "code e3 = Some 429" and "code e4 = Some 429"
  shows "effects (run (constructor t d)
           [QueueRequest m f, Settled (Failed e1), DelayElapsed, Settled (Failed e2),
            DelayElapsed, Settled (Failed e3), DelayElapsed, Settled (Failed e4)])
         = [Execute t \<lparr> method_name = m, executeFn = f, promise = 0, retries = 0, maxRetries = 3 \<rparr>,
            Emit (Retry m 1 2000),
            Execute t \<lparr> method_name = m, executeFn = f, promise = 0, retries = 1, maxRetries = 3 \<rparr>,
            Emit (Retry m 2 4000),
            Execute t \<lparr> method_name = m, executeFn = f, promise = 0, retries = 2, maxRetries = 3 \<rparr>,
            Emit (Retry m 3 8000),
            Execute t \<lparr> method_name = m, executeFn = f, promise = 0, retries = 3, maxRetries = 3 \<rparr>,
            Reject \<lparr> method_name = m, executeFn = f, promise = 0, retries = 3, maxRetries = 3 \<rparr> e4]
    \<and> (\<forall>r err. Reject r err \<in> set (effects (run (constructor t d) es)) \<and> code err = Some 429 \<longrightarrow>
          attempts (promise r) (effects (run (constructor t d) es)) = 4)
    \<and> (\<forall>r \<in> set (pending (run (constructor t d) es)).
          attempts (promise r) (effects (run (constructor t d) es)) \<le> 4)
    \<and> (\<forall>r ms. suspended_at (run (constructor t d) es) = AwaitBackoff r ms \<longrightarrow>
          ms = 2 ^ retries r * 1000 \<and> 1 \<le> retries r \<and> retries r \<le> 3 \<and>
          attempts (promise r) (effects (run (constructor t d) es)) = retries r)
    \<and> (suspended_at s = AwaitExec req \<and> retries req < maxRetries req \<longrightarrow>
          step s (Settled (Failed e1)) =
            s \<lparr> effects := effects s @
                   [Emit (Retry (method_name req) (retries req + 1) (2 ^ (retries req + 1) * 1000))],
                suspended_at := AwaitBackoff (req \<lparr> retries := retries req + 1 \<rparr>)
                                  (2 ^ (retries req + 1) * 1000) \<rparr>)
    \<and> (suspended_at s = AwaitBackoff r ms \<longrightarrow>
          step s DelayElapsed = processQueue_loop (s \<lparr> queue := r # queue s \<rparr>))"
proof -
  let ?w = "run (constructor t d) es"
  have i: "lifecycle_inv ?w" by (rule lifecycle_run [OF lifecycle_constructor])
  have a: "effects (run (constructor t d)
           [QueueRequest m f, Settled (Failed e1), DelayElapsed, Settled (Failed e2),
            DelayElapsed, Settled (Failed e3), DelayElapsed, Settled (Failed e4)])
         = [Execute t \<lparr> method_name = m, executeFn = f, promise = 0, retries = 0, maxRetries = 3 \<rparr>,
            Emit (Retry m 1 2000),
            Execute t \<lparr> method_name = m, executeFn = f, promise = 0, retries = 1, maxRetries = 3 \<rparr>,
            Emit (Retry m 2 4000),
            Execute t \<lparr> method_name = m, executeFn = f, promise = 0, retries = 2, maxRetries = 3 \<rparr>,
            Emit (Retry m 3 8000),
            Execute t \<lparr> method_name = m, executeFn = f, promise = 0, retries = 3, maxRetries = 3 \<rparr>,
            Reject \<lparr> method_name = m, executeFn = f, promise = 0, retries = 3, maxRetries = 3 \<rparr> e4]"
    using assms
    by (simp add: run_def queueRequest_def processQueue_def processQueue_loop_def
        canProceed_at_most at_most_plus trackUsage_def processQueue_settled_def
        processQueue_delayed_def constructor_def Let_def)
  have b: "\<forall>r err. Reject r err \<in> set (effects ?w) \<and> code err = Some 429 \<longrightarrow>
          attempts (promise r) (effects ?w) = 4"
  proof (intro allI impI)
    fix r err assume h: "Reject r err \<in> set (effects ?w) \<and> code err = Some 429"
    then have "settled_entry_ok (pending ?w) (effects ?w) (promises ?w) (Reject r err)"
      using i unfolding lifecycle_inv_def history_ok_def by blast
    then show "attempts (promise r) (effects ?w) = 4" using h by simp
  qed
  have c: "\<forall>r \<in> set (pending ?w). attempts (promise r) (effects ?w) \<le> 4"
    using i by (cases "suspended_at ?w") (auto simp: lifecycle_inv_def pending_def queue_ok_def)
  have d: "\<forall>r ms. suspended_at ?w = AwaitBackoff r ms \<longrightarrow>
          ms = 2 ^ retries r * 1000 \<and> 1 \<le> retries r \<and> retries r \<le> 3 \<and>
          attempts (promise r) (effects ?w) = retries r"
    using i by (auto simp: lifecycle_inv_def)
  have e: "suspended_at s = AwaitExec req \<and> retries req < maxRetries req \<longrightarrow>
          step s (Settled (Failed e1)) =
            s \<lparr> effects := effects s @
                   [Emit (Retry (method_name req) (retries req + 1) (2 ^ (retries req + 1) * 1000))],
                suspended_at := AwaitBackoff (req \<lparr> retries := retries req + 1 \<rparr>)
                                  (2 ^ (retries req + 1) * 1000) \<rparr>"
    using assms(1) by (simp add: processQueue_settled_def Let_def)
  show ?thesis using a b c d e requeue_at_front by blast
qed

theorem bounded_retries_witness:
  "code (Error (Some 429) ''first'') = Some 429
   \<and> code (Error (Some 429) ''second'') = Some 429
   \<and> code (Error (Some 429) ''third'') = Some 429
   \<and> code (Error (Some 429) ''fourth'') = Some 429
   \<and> settlements (effects (run (constructor 0 ''Mon Nov 02 2026'')
        (three_retries @ [Settled (Failed (Error (Some 429) ''fourth''))])))
     = [Reject \<lparr> method_name = ''eth_call'', executeFn = 1, promise = 0, retries = 3,
                 maxRetries = 3 \<rparr> (Error (Some 429) ''fourth'')]
   \<and> attempts 0 (effects (run (constructor 0 ''Mon Nov 02 2026'')
        (three_retries @ [Settled (Failed (Error (Some 429) ''fourth''))]))) = 4
   \<and> suspended_at (run (constructor 0 ''Mon Nov 02 2026'') (take 2 three_retries)) =
        AwaitBackoff \<lparr> method_name = ''eth_call'', executeFn = 1, promise = 0, retries = 1,
                       maxRetries = 3 \<rparr> 2000"
proof -
  let ?r3 = "\<lparr> method_name = ''eth_call'', executeFn = 1, promise = 0, retries = 3,
                 maxRetries = 3 \<rparr>"
  let ?es = "three_retries @ [Settled (Failed (Error (Some 429) ''fourth''))]"
  have h1: "code (Error (Some 429) ''first'') = Some 429"
    and h2: "code (Error (Some 429) ''second'') = Some 429"
    and h3: "code (Error (Some 429) ''third'') = Some 429"
    and h4: "code (Error (Some 429) ''fourth'') = Some 429" by simp_all
  note c = bounded_retries [OF h1 h2 h3 h4, where t = 0 and d = "''Mon Nov 02 2026''"
      and m = "''eth_call''" and f = 1 and es = ?es]
  have eff: "effects (run (constructor 0 ''Mon Nov 02 2026'') ?es)
         = [Execute 0 \<lparr> method_name = ''eth_call'', executeFn = 1, promise = 0, retries = 0, maxRetries = 3 \<rparr>,
            Emit (Retry ''eth_call'' 1 2000),
            Execute 0 \<lparr> method_name = ''eth_call'', executeFn = 1, promise = 0, retries = 1, maxRetries = 3 \<rparr>,
            Emit (Retry ''eth_call'' 2 4000),
            Execute 0 \<lparr> method_name = ''eth_call'', executeFn = 1, promise = 0, retries = 2, maxRetries = 3 \<rparr>,
            Emit (Retry ''eth_call'' 3 8000),
            Execute 0 ?r3,
            Reject ?r3 (Error (Some 429) ''fourth'')]"
    using c [THEN conjunct1] by (simp add: three_retries_def)
  have a: "settlements (effects (run (constructor 0 ''Mon Nov 02 2026'') ?es))
           = [Reject ?r3 (Error (Some 429) ''fourth'')]"
    by (simp only: eff) (simp add: settlements_def)
  have "Reject ?r3 (Error (Some 429) ''fourth'')
          \<in> set (effects (run (constructor 0 ''Mon Nov 02 2026'') ?es))"
    by (simp only: eff) simp
  then have "attempts (promise ?r3) (effects (run (constructor 0 ''Mon Nov 02 2026'') ?es)) = 4"
    using c [THEN conjunct2, THEN conjunct1] h4 by blast
  then have b: "attempts 0 (effects (run (constructor 0 ''Mon Nov 02 2026'') ?es)) = 4"
    by simp
  show ?thesis using a b first_backoff_fields(1) by (simp add: first_backoff_def)
qed

text \<open>
  C6. A rejection whose value is \<^verbatim>\<open>null\<close> or \<^verbatim>\<open>undefined\<close> is not passed on to the
  caller. When the promise of the first execution of an \<^verbatim>\<open>eth_call\<close> is rejected
  with \<^verbatim>\<open>undefined\<close>, reading \<^verbatim>\<open>error.code\<close> throws inside the \<^verbatim>\<open>catch\<close> block: the
  caller's promise is neither rejected nor resolved, \<open>failedRequests\<close> stays 0 and
  \<open>processing\<close> stays true with the loop gone. A call submitted afterwards waits in
  the queue, also after the next reset of the per-second counter: nothing is
  executed any more.
\<close>

theorem nullish_rejection_never_reaches_the_caller:
  "suspended_at first_attempt = AwaitExec eth_call_first
   \<and> step (s \<lparr> suspended_at := AwaitExec req \<rparr>) (Settled FailedNullish)
       = s \<lparr> suspended_at := Dead \<rparr>
   \<and> settlements (effects (step first_attempt (Settled FailedNullish))) = []
   \<and> failedRequests (stats (step first_attempt (Settled FailedNullish))) = 0
   \<and> processing (step first_attempt (Settled FailedNullish))
   \<and> suspended_at (step first_attempt (Settled FailedNullish)) = Dead
   \<and> queue (step first_attempt (Settled FailedNullish)) = []
   \<and> executions (effects (run first_attempt stalling)) = [eth_call_first]
   \<and> settlements (effects (run first_attempt stalling)) = []
   \<and> failedRequests (stats (run first_attempt stalling)) = 0
   \<and> processing (run first_attempt stalling)
   \<and> map method_name (queue (run first_attempt stalling)) = [''eth_getBalance'']"
proof -
  have a: "suspended_at first_attempt = AwaitExec eth_call_first"
    by (simp add: first_attempt_fields eth_call_first_def)
  have b: "step (s \<lparr> suspended_at := AwaitExec req \<rparr>) (Settled FailedNullish)
       = s \<lparr> suspended_at := Dead \<rparr>"
    by (simp add: processQueue_settled_def)
  show ?thesis using a b stalled_run by (simp del: step.simps)
qed

text \<open>
  C7. When the loop finds the head of the queue denied, the state changes in
  three places only: \<open>throttledRequests\<close> is one more, a \<open>throttled\<close> event is
  emitted, and the loop waits at \<open>delay(1000)\<close>. The queue is as it was. Until that
  delay has elapsed, whatever else happens, the loop keeps waiting, the denied
  entry stays the head (new entries go behind it), no promise is resolved or
  rejected and \<open>failedRequests\<close> does not change; when the delay has elapsed the
  loop runs again from its head.
\<close>

theorem denial_leaves_queue_and_callers_alone:
  assumes "queue s = req # rest"
    and "\<not> allowed (fst (canProceed s (method_name req)))"
    and "processing s"
    and "DelayElapsed \<notin> set es"
  shows "processQueue_loop s =
           s \<lparr> stats := (stats s) \<lparr> throttledRequests := throttledRequests (stats s) + 1 \<rparr>,
               effects := effects s @
                 [Emit (Throttled (method_name req)
                    (reason (fst (canProceed s (method_name req)))))],
               suspended_at := AwaitThrottle 1000 \<rparr>
         \<and> queue (processQueue_loop s) = req # rest
         \<and> suspended_at (run (processQueue_loop s) es) = AwaitThrottle 1000
         \<and> (\<exists>new. queue (run (processQueue_loop s) es) = req # rest @ new)
         \<and> settlements (effects (run (processQueue_loop s) es)) = settlements (effects s)
         \<and> failedRequests (stats (run (processQueue_loop s) es)) = failedRequests (stats s)
         \<and> step (run (processQueue_loop s) es) DelayElapsed
             = processQueue_loop (run (processQueue_loop s) es)"
proof -
  let ?s1 = "s \<lparr> stats := (stats s) \<lparr> throttledRequests := throttledRequests (stats s) + 1 \<rparr>,
               effects := effects s @
                 [Emit (Throttled (method_name req)
                    (reason (fst (canProceed s (method_name req)))))],
               suspended_at := AwaitThrottle 1000 \<rparr>"
  have eq: "processQueue_loop s = ?s1"
    using assms(1,2) by (simp add: processQueue_loop_def split_beta Let_def)
  have p: "processing ?s1" and w: "suspended_at ?s1 = AwaitThrottle 1000"
    using assms(3) by simp_all
  note wr = waiting_run [OF p w assms(4)]
  from wr obtain new where "queue (run ?s1 es) = queue ?s1 @ new" by blast
  then have q: "\<exists>new. queue (run ?s1 es) = req # rest @ new" using assms(1) by simp
  have d: "step (run ?s1 es) DelayElapsed = processQueue_loop (run ?s1 es)"
    using wr by (simp add: processQueue_delayed_def)
  show ?thesis
    unfolding eq using wr q d assms(1) by (simp add: settlements_def)
qed

theorem denial_leaves_queue_and_callers_alone_witness:
  "queue second_used_up = eth_call_entry # []
   \<and> \<not> allowed (fst (canProceed second_used_up (method_name eth_call_entry)))
   \<and> processing second_used_up
   \<and> DelayElapsed \<notin> set [TimePasses 400, QueueRequest ''eth_gasPrice'' 2]
   \<and> throttledRequests (stats (processQueue_loop second_used_up)) = 1
   \<and> suspended_at (run (processQueue_loop second_used_up)
        [TimePasses 400, QueueRequest ''eth_gasPrice'' 2]) = AwaitThrottle 1000"
proof -
  have h1: "queue second_used_up = eth_call_entry # []"
    by (simp add: second_used_up_def)
  have h2: "\<not> allowed (fst (canProceed second_used_up (method_name eth_call_entry)))"
    by (simp add: second_used_up_def canProceed_def Let_def full_second_credits
          eth_call_entry_def cost_eth_call SAFE_CREDITS_PER_SECOND_def MAX_CREDITS_PER_DAY_def)
  have h3: "processing second_used_up"
    by (simp add: second_used_up_def)
  have h4: "DelayElapsed \<notin> set [TimePasses 400, QueueRequest ''eth_gasPrice'' 2]"
    by simp
  note c = denial_leaves_queue_and_callers_alone [OF h1 h2 h3 h4]
  have a: "throttledRequests (stats (processQueue_loop second_used_up)) = 1"
    by (subst c [THEN conjunct1]) (simp add: second_used_up_def full_second_idle)
  have b: "suspended_at (run (processQueue_loop second_used_up)
        [TimePasses 400, QueueRequest ''eth_gasPrice'' 2]) = AwaitThrottle 1000"
    using c by blast
  show ?thesis using h1 h2 h3 h4 a b by blast
qed

text \<open>
  C8. For a positive integer cost \<open>c\<close>, \<open>calculateOptimalBatchSize c\<close> is
  \<open>min (floor ((safePerSecond * 0.8) / c)) 50\<close> with \<open>safePerSecond = 400\<close>, that is
  \<open>min (320 div c) 50\<close>; for the cost 20 it is 16; and the exported configuration is
  batch size 16, 3000 ms between batches, one batch at a time.
\<close>

theorem calculateOptimalBatchSize_formula:
  "0 < c \<Longrightarrow>
     calculateOptimalBatchSize c
       = advise_batchSize (of_int SAFE_CREDITS_PER_SECOND) (8 / 10) 50 c
     \<and> calculateOptimalBatchSize c = min (320 div c) 50
     \<and> SAFE_CREDITS_PER_SECOND = 400
     \<and> calculateOptimalBatchSize 20 = 16
     \<and> getOptimalBatchConfig
         = \<lparr> batchSize = 16, delayBetweenBatches = 3000, maxConcurrentBatches = 1 \<rparr>"
proof -
  assume pos: "0 < c"
  have a: "calculateOptimalBatchSize c = min (320 div c) 50"
    using pos by (simp add: calculateOptimalBatchSize_div)
  have b: "advise_batchSize (of_int SAFE_CREDITS_PER_SECOND) (8 / 10) 50 c
             = min (320 div c) 50"
    unfolding advise_batchSize_def available_is_320 by (simp only: floor_divide_of_int_eq)
  have c: "calculateOptimalBatchSize 20 = 16"
    by (simp add: calculateOptimalBatchSize_div)
  show ?thesis using a b c
    by (simp add: getOptimalBatchConfig_def SAFE_CREDITS_PER_SECOND_def)
qed

theorem calculateOptimalBatchSize_formula_witness:
  "(0::int) < 7 \<and> calculateOptimalBatchSize 7 = min (320 div 7) 50
   \<and> calculateOptimalBatchSize 7 = 45
   \<and> calculateOptimalBatchSize 7 = advise_batchSize 400 (8 / 10) 50 7"
  using calculateOptimalBatchSize_formula [of 7]
  by (simp add: SAFE_CREDITS_PER_SECOND_def)

text \<open>
  C9, as amended. The \<open>warning\<close> event of type \<open>daily_limit\<close> is emitted by the
  callback that \<open>startMonitoring\<close> installs, each time it runs while
  \<open>dailyCredits\<close> is above 2400000 (80% of the daily limit), with the statistics of
  that moment, and by nothing else: no other event adds a warning, and a run
  without the monitoring callback emits none. The comparison is that of JavaScript;
  for a counter that is a number it is that of the integers.
\<close>

theorem warning_only_from_monitor:
  "monitor s =
     (if js_gt (dailyCredits s) 2400000
      then s \<lparr> effects := effects s @ [Emit (Warning ''daily_limit'' (getStats s))] \<rparr>
      else s)
   \<and> (dailyCredits s = Num b \<longrightarrow>
        monitor s =
          (if b > 2400000
           then s \<lparr> effects := effects s @ [Emit (Warning ''daily_limit'' (getStats s))] \<rparr>
           else s))
   \<and> (e \<noteq> MonitorTimer \<longrightarrow> warnings (effects (step s e)) = warnings (effects s))
   \<and> (MonitorTimer \<notin> set es \<longrightarrow> warnings (effects (run s es)) = warnings (effects s))"
proof -
  have a: "monitor s =
     (if js_gt (dailyCredits s) 2400000
      then s \<lparr> effects := effects s @ [Emit (Warning ''daily_limit'' (getStats s))] \<rparr>
      else s)"
    by (cases "dailyCredits s")
       (simp_all add: monitor_def Let_def getStats_def MAX_CREDITS_PER_DAY_def)
  have b: "dailyCredits s = Num b \<longrightarrow>
        monitor s =
          (if b > 2400000
           then s \<lparr> effects := effects s @ [Emit (Warning ''daily_limit'' (getStats s))] \<rparr>
           else s)"
    by (simp add: monitor_def Let_def getStats_def MAX_CREDITS_PER_DAY_def)
  show ?thesis using a b warnings_step warnings_run by blast
qed

theorem warning_only_from_monitor_witness:
  "dailyCredits (run (constructor 0 ''Mon Nov 02 2026'') exhausting_the_day) = Num 3000000
   \<and> js_gt (dailyCredits (run (constructor 0 ''Mon Nov 02 2026'') exhausting_the_day)) 2400000
   \<and> warnings (effects (monitor (run (constructor 0 ''Mon Nov 02 2026'') exhausting_the_day)))
       = [Emit (Warning ''daily_limit''
            (getStats (run (constructor 0 ''Mon Nov 02 2026'') exhausting_the_day)))]
   \<and> SecondTimer \<noteq> MonitorTimer
   \<and> warnings (effects (step (run (constructor 0 ''Mon Nov 02 2026'') exhausting_the_day)
                          SecondTimer)) = []
   \<and> MonitorTimer \<notin> set exhausting_the_day
   \<and> warnings (effects (run (constructor 0 ''Mon Nov 02 2026'') exhausting_the_day))
       = warnings (effects (constructor 0 ''Mon Nov 02 2026''))"
proof -
  let ?s = "run (constructor 0 ''Mon Nov 02 2026'') exhausting_the_day"
  note c = warning_only_from_monitor [of ?s 3000000 SecondTimer exhausting_the_day]
  note c0 = warning_only_from_monitor
      [of "constructor 0 ''Mon Nov 02 2026''" 0 SecondTimer exhausting_the_day]
  have a: "warnings (effects (monitor ?s)) = [Emit (Warning ''daily_limit'' (getStats ?s))]"
    by (subst c [THEN conjunct1]) (simp add: exhausted_day warnings_snoc)
  have b: "warnings (effects (step ?s SecondTimer)) = []"
    using c exhausted_day(2) by simp
  have d: "warnings (effects ?s) = warnings (effects (constructor 0 ''Mon Nov 02 2026''))"
    using c0 no_monitor_in_exhausting_the_day by blast
  show ?thesis using a b d exhausted_day(1) no_monitor_in_exhausting_the_day by simp
qed

text \<open>
  C9 as stated promises a warning before the daily limit is reached. In 7500
  seconds of twenty transactions each, with no monitoring callback in between,
  \<open>dailyCredits\<close> reaches the limit and no warning has been emitted.
\<close>

theorem no_warning_at_threshold_counterexample:
  "dailyCredits (run (constructor 0 ''Mon Nov 02 2026'') exhausting_the_day)
     = Num MAX_CREDITS_PER_DAY
   \<and> warnings (effects (run (constructor 0 ''Mon Nov 02 2026'') exhausting_the_day)) = []"
  using exhausted_day by (simp add: MAX_CREDITS_PER_DAY_def)

text \<open>
  C10. For every cost above 320 the advised batch size is 0. Nothing checks the
  sign of the argument before the division: a negative cost gives a negative
  batch size.
\<close>

theorem calculateOptimalBatchSize_zero_above_320:
  "(320 < c \<longrightarrow> calculateOptimalBatchSize c = 0)
   \<and> (c < 0 \<longrightarrow> calculateOptimalBatchSize c < 0)"
proof (intro conjI impI)
  assume "320 < c"
  then show "calculateOptimalBatchSize c = 0"
    by (simp add: calculateOptimalBatchSize_div div_pos_pos_trivial)
next
  assume neg: "c < 0"
  then have "320 div c < 0" by (simp add: div_neg_pos_less0 neg_imp_zdiv_neg_iff)
  then show "calculateOptimalBatchSize c < 0"
    using neg by (simp add: calculateOptimalBatchSize_div)
qed

theorem calculateOptimalBatchSize_zero_above_320_witness:
  "(320::int) < 321 \<and> calculateOptimalBatchSize 321 = 0
   \<and> (-1::int) < 0 \<and> calculateOptimalBatchSize (-1) = -320"
  using calculateOptimalBatchSize_zero_above_320 [of 321]
        calculateOptimalBatchSize_zero_above_320 [of "-1"]
  by (simp add: calculateOptimalBatchSize_div)

end
